theory Spec2Isabelle
  imports Complex_Main
begin

section \<open>JavaScript values used by the scraper\<close>

text \<open>
  A JavaScript number is a rational or \<open>NaN\<close>. Amounts are decimal fractions, so every number
  that the scraper parses is a rational; the rounding of binary floating point is not modelled.
\<close>

datatype jsnum = Num rat | NaN

text \<open>\<^verbatim>\<open>x > 0\<close> on numbers: false for \<open>NaN\<close>.\<close>

definition js_pos :: "jsnum \<Rightarrow> bool" where
  "js_pos x = (case x of Num r \<Rightarrow> 0 < r | NaN \<Rightarrow> False)"

definition isDigit :: "char \<Rightarrow> bool" where
  "isDigit c = (c \<in> set ''0123456789'')"

definition isCommaDigit :: "char \<Rightarrow> bool" where
  "isCommaDigit c = (c = CHR '','' \<or> isDigit c)"

definition isLetter :: "char \<Rightarrow> bool" where
  "isLetter c = (c \<in> set ''abcdefghijklmnopqrstuvwxyzABCDEFGHIJKLMNOPQRSTUVWXYZ'')"

text \<open>
  A character of a string is a UTF-16 code unit below 256. \<^verbatim>\<open>String.prototype.trim\<close> removes the
  white space and the line terminators of ECMAScript; below 256 these are tab, line feed,
  vertical tab, form feed, carriage return, space and the no-break space U+00A0. The others
  (U+FEFF, U+2028, U+2029 and the space separators from U+1680 on) are code units that a
  string of the model cannot hold.
\<close>

definition isSpace :: "char \<Rightarrow> bool" where
  "isSpace c = (c \<in> {CHR 0x09, CHR 0x0A, CHR 0x0B, CHR 0x0C, CHR 0x0D, CHR '' '', CHR 0xA0})"

definition trim :: "string \<Rightarrow> string" where
  "trim s = rev (dropWhile isSpace (rev (dropWhile isSpace s)))"

definition digitVal :: "char \<Rightarrow> nat" where
  "digitVal c = of_char c - 48"

definition decValue :: "string \<Rightarrow> nat" where
  "decValue ds = foldl (\<lambda>a c. 10 * a + digitVal c) 0 ds"

text \<open>
  \<^verbatim>\<open>parseFloat\<close> reads the longest prefix that is a decimal literal and ignores the rest; without
  such a prefix the result is \<open>NaN\<close>. Every string that reaches it in this program is the group
  of a pattern made of digits, commas and one dot, so the forms with white space, sign, exponent
  or \<open>Infinity\<close> do not occur and are left out.
\<close>

definition parseFloat :: "string \<Rightarrow> jsnum" where
  "parseFloat s =
     (let ip = takeWhile isDigit s;
          r = dropWhile isDigit s;
          fp = (case r of [] \<Rightarrow> [] | d # r' \<Rightarrow> if d = CHR ''.'' then takeWhile isDigit r' else [])
      in if ip = [] \<and> fp = [] then NaN
         else Num (of_nat (decValue ip) + of_nat (decValue fp) / 10 ^ length fp))"

text \<open>
  \<^verbatim>\<open>s.replace(',', '')\<close>: the pattern is a string, not a global regular expression, so only the
  first comma is removed.
\<close>

definition replace_comma :: "string \<Rightarrow> string" where
  "replace_comma s = remove1 (CHR '','') s"

definition startsWith :: "string \<Rightarrow> string \<Rightarrow> bool" where
  "startsWith s p = (take (length p) s = p)"

fun str_includes :: "string \<Rightarrow> string \<Rightarrow> bool" where
  "str_includes [] p = (p = [])"
| "str_includes (c # cs) p = (startsWith (c # cs) p \<or> str_includes cs p)"

text \<open>\<open>n\<close> digits at the start of \<open>s\<close>: the pattern \<^verbatim>\<open>\d{n}\<close>.\<close>

definition digitsAt :: "nat \<Rightarrow> string \<Rightarrow> bool" where
  "digitsAt n s = (n \<le> length s \<and> list_all isDigit (take n s))"

function showNat :: "nat \<Rightarrow> string" where
  "showNat n = (if n < 10 then [char_of (48 + n)] else showNat (n div 10) @ [char_of (48 + n mod 10)])"
  by pat_completeness auto
termination
  by (relation "measure (\<lambda>n. n)") auto

declare showNat.simps [simp del]

subsection \<open>Regular expressions of the source\<close>

text \<open>
  \<^verbatim>\<open>text.match(re)\<close> without the global flag returns the leftmost match. Each pattern of the
  source is a function that matches at the start of a string and returns group 1; \<open>search\<close>
  tries it at every position from the left. In each pattern every part after the mandatory
  prefix may match the empty string, so the greedy choice is the match and no backtracking
  changes it.
\<close>

fun search :: "(string \<Rightarrow> 'a option) \<Rightarrow> string \<Rightarrow> 'a option" where
  "search m [] = m []"
| "search m (c # cs) = (case m (c # cs) of Some g \<Rightarrow> Some g | None \<Rightarrow> search m cs)"

text \<open>\<^verbatim>\<open>(?:,\d{3})*\<close> at the start of a string: the text it matches.\<close>

fun comma_groups :: "string \<Rightarrow> string" where
  "comma_groups (k # a # b # c # rest) =
     (if k = CHR '','' \<and> isDigit a \<and> isDigit b \<and> isDigit c
      then k # a # b # c # comma_groups rest else [])"
| "comma_groups _ = []"

text \<open>\<^verbatim>\<open>(?:\.\d{2})?\<close> at the start of a string: the text it matches.\<close>

definition cents_part :: "string \<Rightarrow> string" where
  "cents_part s =
     (case s of d # a # b # _ \<Rightarrow> if d = CHR ''.'' \<and> isDigit a \<and> isDigit b then [d, a, b] else []
      | _ \<Rightarrow> [])"

text \<open>\<^verbatim>\<open>/\$(\d+(?:,\d{3})*(?:\.\d{2})?)/\<close>\<close>

definition amount_at :: "string \<Rightarrow> string option" where
  "amount_at s =
     (case s of [] \<Rightarrow> None
      | c # r \<Rightarrow>
          if c = CHR ''$'' \<and> takeWhile isDigit r \<noteq> [] then
            (let ds = takeWhile isDigit r;
                 r1 = dropWhile isDigit r;
                 gs = comma_groups r1;
                 r2 = drop (length gs) r1
             in Some (ds @ gs @ cents_part r2))
          else None)"

text \<open>\<^verbatim>\<open>[,\d]+\.?\d*\<close> at the start of a string that starts with a comma or a digit.\<close>

definition num_group :: "string \<Rightarrow> string" where
  "num_group s =
     (let g = takeWhile isCommaDigit s;
          r1 = dropWhile isCommaDigit s;
          dot = (case r1 of [] \<Rightarrow> [] | d # _ \<Rightarrow> if d = CHR ''.'' then [d] else []);
          r2 = drop (length dot) r1
      in g @ dot @ takeWhile isDigit r2)"

text \<open>\<^verbatim>\<open>/\$([,\d]+\.?\d*)/\<close>\<close>

definition refund_at :: "string \<Rightarrow> string option" where
  "refund_at s =
     (case s of c # d # r \<Rightarrow> if c = CHR ''$'' \<and> isCommaDigit d then Some (num_group (d # r)) else None
      | _ \<Rightarrow> None)"

text \<open>\<^verbatim>\<open>/\$?([\d,]+\.?\d*)/\<close>\<close>

definition price_at :: "string \<Rightarrow> string option" where
  "price_at s =
     (case s of [] \<Rightarrow> None
      | c # r \<Rightarrow>
          if c = CHR ''$'' \<and> r \<noteq> [] \<and> isCommaDigit (hd r) then Some (num_group r)
          else if isCommaDigit c then Some (num_group (c # r))
          else None)"

text \<open>\<^verbatim>\<open>/orderID=([^&]+)/\<close>\<close>

definition orderID_at :: "string \<Rightarrow> string option" where
  "orderID_at s =
     (let r = drop 8 s
      in if startsWith s ''orderID='' \<and> takeWhile (\<lambda>c. c \<noteq> CHR ''&'') r \<noteq> []
         then Some (takeWhile (\<lambda>c. c \<noteq> CHR ''&'') r) else None)"

text \<open>\<^verbatim>\<open>/(D\d{2}-\d{7}-\d{7}|1\d{2}-\d{7}-\d{7})/\<close>\<close>

definition orderShape_at :: "string \<Rightarrow> string option" where
  "orderShape_at s =
     (if (startsWith s ''D'' \<or> startsWith s ''1'') \<and> digitsAt 2 (drop 1 s) \<and>
         startsWith (drop 3 s) ''-'' \<and> digitsAt 7 (drop 4 s) \<and>
         startsWith (drop 11 s) ''-'' \<and> digitsAt 7 (drop 12 s)
      then Some (take 19 s) else None)"

definition toLower :: "char \<Rightarrow> char" where
  "toLower c = (if c \<in> set ''ABCDEFGHIJKLMNOPQRSTUVWXYZ'' then char_of (of_char c + (32::nat)) else c)"

definition months :: "string list" where
  "months = [''jan'', ''feb'', ''mar'', ''apr'', ''may'', ''jun'',
             ''jul'', ''aug'', ''sep'', ''oct'', ''nov'', ''dec'']"

text \<open>
  \<^verbatim>\<open>\d{1,2}\<close> followed by the text \<open>sep\<close>: the number of digits taken, two before one.
\<close>

definition day_len :: "string \<Rightarrow> string \<Rightarrow> nat option" where
  "day_len sep s =
     (if digitsAt 2 s \<and> startsWith (drop 2 s) sep then Some 2
      else if digitsAt 1 s \<and> startsWith (drop 1 s) sep then Some 1
      else None)"

text \<open>\<^verbatim>\<open>/((?:Jan|Feb|Mar|Apr|May|Jun|Jul|Aug|Sep|Oct|Nov|Dec)[a-z]* \d{1,2}, \d{4})/i\<close>\<close>

definition date_words_at :: "string \<Rightarrow> string option" where
  "date_words_at s =
     (if 3 \<le> length s \<and> map toLower (take 3 s) \<in> set months then
        (let w = 3 + length (takeWhile isLetter (drop 3 s))
         in if startsWith (drop w s) '' '' then
              (case day_len '', '' (drop (w + 1) s) of
                 None \<Rightarrow> None
               | Some d \<Rightarrow>
                   if digitsAt 4 (drop (w + 1 + d + 2) s) then Some (take (w + 1 + d + 2 + 4) s)
                   else None)
            else None)
      else None)"

text \<open>\<^verbatim>\<open>/(\d{1,2}\/\d{1,2}\/\d{4})/\<close>\<close>

definition date_slashes_at :: "string \<Rightarrow> string option" where
  "date_slashes_at s =
     (case day_len ''/'' s of
        None \<Rightarrow> None
      | Some d \<Rightarrow>
          (case day_len ''/'' (drop (d + 1) s) of
             None \<Rightarrow> None
           | Some m \<Rightarrow>
               if digitsAt 4 (drop (d + 1 + m + 1) s) then Some (take (d + 1 + m + 1 + 4) s)
               else None))"

text \<open>\<^verbatim>\<open>/(\d{4}-\d{2}-\d{2})/\<close>\<close>

definition date_iso_at :: "string \<Rightarrow> string option" where
  "date_iso_at s =
     (if digitsAt 4 s \<and> startsWith (drop 4 s) ''-'' \<and> digitsAt 2 (drop 5 s) \<and>
         startsWith (drop 7 s) ''-'' \<and> digitsAt 2 (drop 8 s)
      then Some (take 10 s) else None)"

section \<open>Records and their constructors (\<^verbatim>\<open>types.ts\<close>, \<^verbatim>\<open>schemas.ts\<close>)\<close>

record Item =
  item_name :: string
  item_price :: jsnum
  item_quantity :: jsnum
  item_seller :: string
  item_imageUrl :: string
  item_productUrl :: string

text \<open>
  A transaction object is what \<open>createTransaction\<close> builds: a finite map from field names to
  values. Its argument is a \<^verbatim>\<open>Partial<Transaction>\<close>, possibly with further keys that callers
  spread into it, so it is a map of the same kind; a key that is absent or \<^verbatim>\<open>undefined\<close> is
  \<open>None\<close>.
\<close>

datatype jsval =
    JStr string
  | JNum jsnum
  | JAddr "(string \<times> string) list"
  | JItems "Item list"

type_synonym obj = "string \<rightharpoonup> jsval"

definition truthy :: "jsval \<Rightarrow> bool" where
  "truthy v =
     (case v of JStr s \<Rightarrow> s \<noteq> []
      | JNum n \<Rightarrow> (case n of Num r \<Rightarrow> r \<noteq> 0 | NaN \<Rightarrow> False)
      | JAddr a \<Rightarrow> True
      | JItems xs \<Rightarrow> True)"

text \<open>\<^verbatim>\<open>x || d\<close> where \<open>x\<close> is a field that may be absent.\<close>

definition js_or :: "jsval option \<Rightarrow> jsval \<Rightarrow> jsval" where
  "js_or x d = (case x of None \<Rightarrow> d | Some v \<Rightarrow> if truthy v then v else d)"

text \<open>
  \<^verbatim>\<open>(t.f || 0)\<close> for a field declared \<^verbatim>\<open>number\<close>, as a number: an absent field, \<open>0\<close> and
  \<open>NaN\<close> all give \<open>0\<close>. A value of another type cannot be there by the declared types.
\<close>

definition num_or0 :: "jsval option \<Rightarrow> rat" where
  "num_or0 x = (case x of Some (JNum (Num r)) \<Rightarrow> r | _ \<Rightarrow> 0)"

definition createTransaction :: "obj \<Rightarrow> obj" where
  "createTransaction data =
     [''orderId'' \<mapsto> js_or (data ''orderId'') (JStr []),
      ''date'' \<mapsto> js_or (data ''date'') (JStr []),
      ''total'' \<mapsto> js_or (data ''total'') (JNum (Num 0)),
      ''status'' \<mapsto> js_or (data ''status'') (JStr ''unknown''),
      ''recipient'' \<mapsto> js_or (data ''recipient'') (JStr []),
      ''address'' \<mapsto> js_or (data ''address'') (JAddr []),
      ''items'' \<mapsto> js_or (data ''items'') (JItems []),
      ''orderScreenshot'' \<mapsto> js_or (data ''orderScreenshot'') (JStr []),
      ''paymentMethod'' \<mapsto> js_or (data ''paymentMethod'') (JStr []),
      ''trackingNumber'' \<mapsto> js_or (data ''trackingNumber'') (JStr [])]"

text \<open>\<^verbatim>\<open>x || d\<close> on the fields of an item, which \<open>extractItemDetailsWithElement\<close> always passes.\<close>

definition str_or :: "string \<Rightarrow> string \<Rightarrow> string" where
  "str_or s d = (if s = [] then d else s)"

definition jsnum_or :: "jsnum \<Rightarrow> rat \<Rightarrow> jsnum" where
  "jsnum_or n d = (case n of Num r \<Rightarrow> if r = 0 then Num d else Num r | NaN \<Rightarrow> Num d)"

definition createItem :: "Item \<Rightarrow> Item" where
  "createItem data =
     \<lparr>item_name = str_or (item_name data) [],
      item_price = jsnum_or (item_price data) 0,
      item_quantity = jsnum_or (item_quantity data) 1,
      item_seller = str_or (item_seller data) [],
      item_imageUrl = str_or (item_imageUrl data) [],
      item_productUrl = str_or (item_productUrl data) []\<rparr>"

record BasicTransaction =
  bt_orderId :: string
  bt_date :: string
  bt_total :: jsnum
  bt_orderDetailsUrl :: "string option"

text \<open>A \<open>BasicTransaction\<close> passed where an object is expected.\<close>

definition obj_of_basic :: "BasicTransaction \<Rightarrow> obj" where
  "obj_of_basic t =
     (let base = [''orderId'' \<mapsto> JStr (bt_orderId t),
                  ''date'' \<mapsto> JStr (bt_date t),
                  ''total'' \<mapsto> JNum (bt_total t)]
      in case bt_orderDetailsUrl t of None \<Rightarrow> base
         | Some u \<Rightarrow> base(''orderDetailsUrl'' \<mapsto> JStr u))"

record OrderDetails =
  od_recipient :: string
  od_address :: "(string \<times> string) list"
  od_items :: "Item list"
  od_paymentMethod :: string
  od_trackingNumber :: string
  od_refund :: jsnum

text \<open>The keys that \<^verbatim>\<open>...orderDetails\<close> spreads into an object literal.\<close>

definition obj_of_details :: "OrderDetails \<Rightarrow> obj" where
  "obj_of_details od =
     [''recipient'' \<mapsto> JStr (od_recipient od),
      ''address'' \<mapsto> JAddr (od_address od),
      ''items'' \<mapsto> JItems (od_items od),
      ''paymentMethod'' \<mapsto> JStr (od_paymentMethod od),
      ''trackingNumber'' \<mapsto> JStr (od_trackingNumber od),
      ''refund'' \<mapsto> JNum (od_refund od)]"

section \<open>The list pager (\<open>scrapeTransactionList\<close>, \<open>extractTransactionFromRow\<close>)\<close>

text \<open>
  What the browser answers about one transaction row: whether a call on the row handle rejects
  (the whole extraction is inside \<^verbatim>\<open>try\<close> and then returns \<^verbatim>\<open>null\<close>), its text content, the
  \<^verbatim>\<open>href\<close> values of its links in document order, and the value of \<^verbatim>\<open>Date.now()\<close> while the row
  is processed.
\<close>

record row =
  row_throws :: bool
  rowText :: "string option"
  anchors :: "string list"
  clock :: nat

definition orderUrl :: "string \<Rightarrow> string" where
  "orderUrl orderId = ''https://www.amazon.com/gp/your-account/order-details?orderID='' @ orderId"

text \<open>
  \<open>baseUrl\<close> is \<^verbatim>\<open>config.get('amazon.baseUrl')\<close>. The link is the first one matching
  \<^verbatim>\<open>a[href*="order"], a[href*="gp/your-account"]\<close>.
\<close>

definition extractTransactionFromRow :: "string \<Rightarrow> row \<Rightarrow> BasicTransaction option" where
  "extractTransactionFromRow baseUrl r =
     (if row_throws r then None
      else
        let txt = (case rowText r of None \<Rightarrow> [] | Some t \<Rightarrow> t);
            orderLink = find (\<lambda>h. str_includes h ''order'' \<or> str_includes h ''gp/your-account'')
                          (anchors r);
            href = (case orderLink of None \<Rightarrow> [] | Some h \<Rightarrow> h);
            orderDetailsUrl0 =
              (if href = [] then [] else if startsWith href ''http'' then href else baseUrl @ href);
            orderId0 = (case search orderID_at href of None \<Rightarrow> [] | Some g \<Rightarrow> g);
            total = (if txt = [] then Num 0
                     else case search amount_at txt of
                            None \<Rightarrow> Num 0
                          | Some g \<Rightarrow> parseFloat (replace_comma g));
            shape = (if orderId0 = [] \<and> txt \<noteq> [] then search orderShape_at txt else None);
            orderId = (case shape of None \<Rightarrow> orderId0 | Some g \<Rightarrow> g);
            orderDetailsUrl1 = (case shape of None \<Rightarrow> orderDetailsUrl0 | Some g \<Rightarrow> orderUrl g);
            orderDetailsUrl =
              (if orderId \<noteq> [] \<and> orderDetailsUrl1 = [] then orderUrl orderId else orderDetailsUrl1)
        in if orderId \<noteq> [] \<or> js_pos total then
             Some \<lparr>bt_orderId = (if orderId \<noteq> [] then orderId else ''unknown-'' @ showNat (clock r)),
                   bt_date = [],
                   bt_total = total,
                   bt_orderDetailsUrl = Some orderDetailsUrl\<rparr>
           else None)"

text \<open>The inner \<^verbatim>\<open>for\<close> loop over the rows of one page: every non-null result is pushed.\<close>

definition process_rows :: "string \<Rightarrow> row list \<Rightarrow> BasicTransaction list" where
  "process_rows baseUrl transactionRows = List.map_filter (extractTransactionFromRow baseUrl) transactionRows"

text \<open>
  What one page of the listing answers: its rows (\<open>None\<close> when the query for rows rejects) and
  the "Next Page" control: absent, present and working, the query for it rejects, or the click
  or the wait after it rejects.
\<close>

datatype next_control = Absent | Present | QueryRejects | ClickRejects

record listing_page =
  page_rows :: "row list option"
  page_next :: next_control

text \<open>
  The result of the walk: whether an exception left the loop, the final \<^verbatim>\<open>currentPage\<close>, the
  number of clicks on "Next Page", and \<^verbatim>\<open>allTransactions\<close>.
\<close>

record walk =
  thrown :: bool
  currentPage :: nat
  clicks :: nat
  allTransactions :: "BasicTransaction list"

text \<open>
  The \<^verbatim>\<open>while (true)\<close> loop of \<open>scrapeTransactionList\<close>; \<open>pages n\<close> is what the browser shows as
  page \<open>n\<close>.
\<close>

function scrape_loop ::
  "string \<Rightarrow> (nat \<Rightarrow> listing_page) \<Rightarrow> nat \<Rightarrow> nat \<Rightarrow> BasicTransaction list \<Rightarrow> walk" where
  "scrape_loop baseUrl pages cp n acc =
     (case page_rows (pages cp) of
        None \<Rightarrow> \<lparr>thrown = True, currentPage = cp, clicks = n, allTransactions = acc\<rparr>
      | Some transactionRows \<Rightarrow>
          if transactionRows = [] then
            \<lparr>thrown = False, currentPage = cp, clicks = n, allTransactions = acc\<rparr>
          else
            let acc' = acc @ process_rows baseUrl transactionRows in
            (case page_next (pages cp) of
               Absent \<Rightarrow> \<lparr>thrown = False, currentPage = cp, clicks = n, allTransactions = acc'\<rparr>
             | QueryRejects \<Rightarrow> \<lparr>thrown = True, currentPage = cp, clicks = n, allTransactions = acc'\<rparr>
             | ClickRejects \<Rightarrow> \<lparr>thrown = True, currentPage = cp, clicks = n + 1, allTransactions = acc'\<rparr>
             | Present \<Rightarrow>
                 if cp + 1 > 10 then
                   \<lparr>thrown = False, currentPage = cp + 1, clicks = n + 1, allTransactions = acc'\<rparr>
                 else scrape_loop baseUrl pages (cp + 1) (n + 1) acc'))"
  by pat_completeness auto
termination
  by (relation "measure (\<lambda>(baseUrl, pages, cp, n, acc). 11 - cp)") auto

declare scrape_loop.simps [simp del]

text \<open>
  What the browser answers during one call of \<open>scrapeTransactionList\<close>: whether reading and
  saving the page content before the loop rejects, the pages, and whether reading the body
  text in the \<^verbatim>\<open>catch\<close> block rejects (that exception leaves the function).
\<close>

record listing =
  prelude_throws :: bool
  pages :: "nat \<Rightarrow> listing_page"
  debug_throws :: bool

datatype error = ScrapeError

text \<open>
  After an exception inside \<^verbatim>\<open>try\<close> the function returns \<^verbatim>\<open>transactions\<close>, which is still the
  empty array, not \<^verbatim>\<open>allTransactions\<close>.
\<close>

definition scrapeTransactionList :: "string \<Rightarrow> listing \<Rightarrow> error + BasicTransaction list" where
  "scrapeTransactionList baseUrl l =
     (let w = scrape_loop baseUrl (pages l) 1 0 []
      in if \<not> prelude_throws l \<and> \<not> thrown w then Inr (allTransactions w)
         else if debug_throws l then Inl ScrapeError
         else Inr [])"

text \<open>The rows of a page, none when the query rejects.\<close>

definition rows_of :: "listing_page \<Rightarrow> row list" where
  "rows_of p = (case page_rows p of None \<Rightarrow> [] | Some transactionRows \<Rightarrow> transactionRows)"

text \<open>
  Three readings of a row that \<open>extractTransactionFromRow\<close> makes: the id that the first order
  link carries in its \<^verbatim>\<open>orderID\<close> parameter, the id found in the text of the row by its shape,
  and the amount found in the text.
\<close>

definition linked_orderId :: "row \<Rightarrow> string option" where
  "linked_orderId r =
     (case find (\<lambda>h. str_includes h ''order'' \<or> str_includes h ''gp/your-account'') (anchors r) of
        None \<Rightarrow> None
      | Some h \<Rightarrow> search orderID_at h)"

definition text_orderId :: "row \<Rightarrow> string option" where
  "text_orderId r = (case rowText r of None \<Rightarrow> None | Some txt \<Rightarrow> search orderShape_at txt)"

definition row_amount :: "row \<Rightarrow> jsnum" where
  "row_amount r =
     (case rowText r of
        None \<Rightarrow> Num 0
      | Some txt \<Rightarrow>
          if txt = [] then Num 0
          else case search amount_at txt of
                 None \<Rightarrow> Num 0
               | Some g \<Rightarrow> parseFloat (replace_comma g))"

section \<open>The detail page (\<open>extractOrderDetailsWithPage\<close>)\<close>

subsection \<open>The document\<close>

text \<open>
  A document is a tree of text nodes and elements with a tag name (the local name, in lower
  case as in an HTML document). \<open>textContent\<close> is the text of all descendants in document
  order.
\<close>

datatype node = Text string | Elem string "node list"

fun textContent :: "node \<Rightarrow> string" where
  "textContent (Text s) = s"
| "textContent (Elem tag kids) = concat (map textContent kids)"

fun isElem :: "node \<Rightarrow> bool" where
  "isElem (Text s) = False"
| "isElem (Elem tag kids) = True"

fun tagOf :: "node \<Rightarrow> string" where
  "tagOf (Text s) = []"
| "tagOf (Elem tag kids) = tag"

text \<open>\<^verbatim>\<open>el.children\<close>: the child nodes that are elements.\<close>

fun children :: "node \<Rightarrow> node list" where
  "children (Text s) = []"
| "children (Elem tag kids) = filter isElem kids"

text \<open>
  The elements below a node in document order, each with its \<^verbatim>\<open>parentElement\<close>.
\<close>

fun elements_below :: "node \<Rightarrow> (node \<times> node) list" where
  "elements_below (Text s) = []"
| "elements_below (Elem tag kids) =
     concat (map (\<lambda>k. if isElem k then (k, Elem tag kids) # elements_below k else []) kids)"

text \<open>\<^verbatim>\<open>page.$$('span, div, td')\<close> on a document whose \<^verbatim>\<open>body\<close> element is \<open>b\<close>.\<close>

definition span_div_td :: "node \<Rightarrow> (node \<times> node) list" where
  "span_div_td b = filter (\<lambda>(el, parent). tagOf el \<in> {''span'', ''div'', ''td''}) (elements_below b)"

fun join :: "string \<Rightarrow> string list \<Rightarrow> string" where
  "join sep [] = []"
| "join sep [x] = x"
| "join sep (x # y # ys) = x @ sep @ join sep (y # ys)"

text \<open>\<^verbatim>\<open>Array.from(children).map(child => child.textContent || '').join(' ')\<close>\<close>

definition siblingTexts :: "node \<Rightarrow> string" where
  "siblingTexts parent = join '' '' (map textContent (children parent))"

subsection \<open>The refund amount\<close>

text \<open>
  The loop over the \<^verbatim>\<open>span, div, td\<close> elements. At an element whose trimmed text is the label, the
  text of the parent is searched for \<^verbatim>\<open>/\$([,\d]+\.?\d*)/\<close>, then the texts of the parent's
  children joined by spaces; a match ends the loop, and without a match the loop goes on.
\<close>

fun refund_loop :: "(node \<times> node) list \<Rightarrow> jsnum \<Rightarrow> jsnum" where
  "refund_loop [] refund = refund"
| "refund_loop ((element, parent) # rest) refund =
     (if trim (textContent element) = ''Refund Total'' then
        (case search refund_at (textContent parent) of
           Some g \<Rightarrow> parseFloat (replace_comma g)
         | None \<Rightarrow>
             (case search refund_at (siblingTexts parent) of
                Some g \<Rightarrow> parseFloat (replace_comma g)
              | None \<Rightarrow> refund_loop rest refund))
      else refund_loop rest refund)"

subsection \<open>Items\<close>

text \<open>
  What an item row answers: the text of its first name element, of its first price element,
  the \<^verbatim>\<open>src\<close> of its first image (each \<open>None\<close> when there is no such element or value), and
  whether a call on it rejects.
\<close>

record item_element =
  name_text :: "string option"
  price_text :: "string option"
  image_src :: "string option"
  item_throws :: bool

definition opt_str :: "string option \<Rightarrow> string" where
  "opt_str x = (case x of None \<Rightarrow> [] | Some s \<Rightarrow> s)"

definition extractItemDetailsWithElement :: "item_element \<Rightarrow> Item option" where
  "extractItemDetailsWithElement e =
     (if item_throws e then None
      else
        let name = trim (opt_str (name_text e));
            price = (case search price_at (opt_str (price_text e)) of
                       None \<Rightarrow> Num 0
                     | Some g \<Rightarrow> parseFloat (replace_comma g));
            imageUrl = opt_str (image_src e)
        in Some (createItem \<lparr>item_name = name, item_price = price, item_quantity = Num 1,
                              item_seller = [], item_imageUrl = imageUrl, item_productUrl = []\<rparr>))"

subsection \<open>The order details\<close>

text \<open>
  What the detail page answers: the \<^verbatim>\<open>body\<close> element, the text of the first address block and of
  the first payment block (\<open>None\<close> when absent), the item rows, and the stage, if any, at which a
  call on the page rejects. The function catches that exception and returns what it has
  collected so far.
\<close>

datatype stage = AtAddress | AtPayment | AtRefund | AtItems

record detail_doc =
  body :: node
  address_text :: "string option"
  payment_text :: "string option"
  item_elements :: "item_element list"
  fails_at :: "stage option"

definition emptyOrderDetails :: OrderDetails where
  "emptyOrderDetails =
     \<lparr>od_recipient = [], od_address = [], od_items = [], od_paymentMethod = [],
      od_trackingNumber = [], od_refund = Num 0\<rparr>"

definition extractOrderDetailsWithPage :: "detail_doc \<Rightarrow> OrderDetails" where
  "extractOrderDetailsWithPage d =
     (let od0 = emptyOrderDetails in
      if fails_at d = Some AtAddress then od0
      else
        let addressText = opt_str (address_text d);
            od1 = (if addressText = [] then od0
                   else od0\<lparr>od_recipient := trim (takeWhile (\<lambda>c. c \<noteq> CHR 0x0A) addressText),
                            od_address := [(''full'', trim addressText)]\<rparr>)
        in if fails_at d = Some AtPayment then od1
           else
             let paymentText = opt_str (payment_text d);
                 od2 = (if paymentText = [] then od1 else od1\<lparr>od_paymentMethod := trim paymentText\<rparr>)
             in if fails_at d = Some AtRefund then od2
                else
                  let od3 = od2\<lparr>od_refund := refund_loop (span_div_td (body d)) (od_refund od2)\<rparr>
                  in if fails_at d = Some AtItems then od3
                     else od3\<lparr>od_items := List.map_filter extractItemDetailsWithElement (item_elements d)\<rparr>)"

section \<open>One job (\<open>scrapeOrderDetailsWithPage\<close>, \<open>takeSmartOrderScreenshot\<close>)\<close>

text \<open>
  The state of a run: the dedup index \<open>processedOrders\<close>, the paths that exist in the file
  system, and \<^verbatim>\<open>transactionData.transactions\<close>. Two logs record calls and are read by no code:
  \<open>capture_log\<close> has the path of every call of \<open>takeSmartOrderScreenshot\<close>, and \<open>job_log\<close> the
  argument of every call of \<open>scrapeOrderDetailsWithPage\<close>.
\<close>

record scraper_state =
  processedOrders :: "string set"
  files :: "string set"
  transactions :: "obj list"
  capture_log :: "string list"
  job_log :: "BasicTransaction list"

text \<open>
  What the browser answers while one job runs: whether navigation (or the wait after it)
  rejects, the document, whether reading the body text rejects, and whether the first capture
  and the fallback capture of \<open>takeSmartOrderScreenshot\<close> reject.
\<close>

record detail_page =
  goto_throws :: bool
  doc :: detail_doc
  body_text_throws :: bool
  primary_shot_throws :: bool
  fallback_shot_throws :: bool

text \<open>
  \<open>takeSmartOrderScreenshot\<close>: hovering, scrolling and the capture of the card or of the viewport
  are inside \<^verbatim>\<open>try\<close>; the \<^verbatim>\<open>catch\<close> block captures the viewport, and an exception there
  leaves the function. A capture that succeeds creates the file. The result says whether the
  function returned normally.
\<close>

definition takeSmartOrderScreenshot ::
  "detail_page \<Rightarrow> string \<Rightarrow> scraper_state \<Rightarrow> bool \<times> scraper_state" where
  "takeSmartOrderScreenshot pg screenshotPath st =
     (let st1 = st\<lparr>capture_log := capture_log st @ [screenshotPath]\<rparr>
      in if \<not> primary_shot_throws pg then (True, st1\<lparr>files := insert screenshotPath (files st1)\<rparr>)
         else if \<not> fallback_shot_throws pg then (True, st1\<lparr>files := insert screenshotPath (files st1)\<rparr>)
         else (False, st1))"

text \<open>\<^verbatim>\<open>path.join(dir, file)\<close> for a directory name without a trailing separator.\<close>

definition path_join :: "string \<Rightarrow> string \<Rightarrow> string" where
  "path_join dir file = dir @ ''/'' @ file"

definition screenshotPath_of :: "string \<Rightarrow> BasicTransaction \<Rightarrow> string" where
  "screenshotPath_of screenshotsDir transaction =
     path_join screenshotsDir (''order-'' @ bt_orderId transaction @ ''.png'')"

text \<open>The three date patterns, tried in order on the body text; the first that matches wins.\<close>

definition date_from_text :: "string \<Rightarrow> string" where
  "date_from_text bodyText =
     (case search date_words_at bodyText of
        Some g \<Rightarrow> g
      | None \<Rightarrow>
          (case search date_slashes_at bodyText of
             Some g \<Rightarrow> g
           | None \<Rightarrow> (case search date_iso_at bodyText of Some g \<Rightarrow> g | None \<Rightarrow> [])))"

text \<open>The object literal that both branches of \<open>scrapeOrderDetailsWithPage\<close> start from.\<close>

definition job_fields :: "BasicTransaction \<Rightarrow> string \<Rightarrow> string \<Rightarrow> obj" where
  "job_fields transaction orderDate screenshotPath =
     (let base = [''orderId'' \<mapsto> JStr (bt_orderId transaction),
                  ''date'' \<mapsto> JStr orderDate,
                  ''total'' \<mapsto> JNum (bt_total transaction),
                  ''orderScreenshot'' \<mapsto> JStr screenshotPath]
      in case bt_orderDetailsUrl transaction of None \<Rightarrow> base
         | Some u \<Rightarrow> base(''orderDetailsUrl'' \<mapsto> JStr u))"

text \<open>The record of the \<^verbatim>\<open>catch\<close> block.\<close>

definition basic_record :: "BasicTransaction \<Rightarrow> obj" where
  "basic_record transaction =
     createTransaction ((job_fields transaction (bt_date transaction) [])(''items'' \<mapsto> JItems []))"

text \<open>
  \<open>scrapeOrderDetailsWithPage\<close>; \<open>screenshotsDir\<close> is \<^verbatim>\<open>config.get('output.screenshotsDir')\<close>. The
  whole body is inside \<^verbatim>\<open>try\<close>, so the function always returns a record.
\<close>

definition scrapeOrderDetailsWithPage ::
  "string \<Rightarrow> BasicTransaction \<Rightarrow> detail_page \<Rightarrow> scraper_state \<Rightarrow> obj \<times> scraper_state" where
  "scrapeOrderDetailsWithPage screenshotsDir transaction pg st =
     (let st0 = st\<lparr>job_log := job_log st @ [transaction]\<rparr> in
      if opt_str (bt_orderDetailsUrl transaction) \<noteq> [] \<and> goto_throws pg then
        (basic_record transaction, st0)
      else
        let screenshotPath = screenshotPath_of screenshotsDir transaction;
            (ok, st1) = (if screenshotPath \<notin> files st0
                         then takeSmartOrderScreenshot pg screenshotPath st0
                         else (True, st0))
        in if \<not> ok then (basic_record transaction, st1)
           else
             let orderDetails = extractOrderDetailsWithPage (doc pg) in
             if bt_date transaction = [] \<and> body_text_throws pg then (basic_record transaction, st1)
             else
               let orderDate = (if bt_date transaction = []
                                then date_from_text (textContent (body (doc pg)))
                                else bt_date transaction)
               in (createTransaction
                     (job_fields transaction orderDate screenshotPath ++ obj_of_details orderDetails),
                   st1))"

section \<open>Partitioning jobs across workers: \<open>chunkArray\<close>\<close>

text \<open>
  \<^verbatim>\<open>array.slice(start, end)\<close> for indices \<open>0 \<le> start\<close>, \<open>0 \<le> end\<close>: the elements at
  positions \<open>start\<close>, ..., \<open>end - 1\<close> that exist; empty when \<open>end \<le> start\<close>.
\<close>

definition slice :: "'a list \<Rightarrow> nat \<Rightarrow> nat \<Rightarrow> 'a list" where
  "slice array start end = take (end - start) (drop start array)"

text \<open>
  \<^verbatim>\<open>Math.ceil(array.length / chunks)\<close> for \<open>chunks \<ge> 1\<close>. Array lengths are below \<open>2^32\<close>, where
  the floating-point quotient of two integers is never rounded across an integer, so the
  ceiling is the exact one.
\<close>

definition chunkSize_of :: "nat \<Rightarrow> nat \<Rightarrow> nat" where
  "chunkSize_of n chunks = nat \<lceil>(of_nat n :: rat) / of_nat chunks\<rceil>"

text \<open>
  The \<^verbatim>\<open>for (let i = 0; i < array.length; i += chunkSize)\<close> loop. With \<open>chunkSize = 0\<close> and
  \<open>i < array.length\<close> the source loop never ends; that is the value \<open>None\<close>.
\<close>

function chunk_loop :: "'a list \<Rightarrow> nat \<Rightarrow> nat \<Rightarrow> 'a list list \<Rightarrow> 'a list list option" where
  "chunk_loop array chunkSize i result =
     (if i < length array then
        (if chunkSize = 0 then None
         else chunk_loop array chunkSize (i + chunkSize) (result @ [slice array i (i + chunkSize)]))
      else Some result)"
  by pat_completeness auto
termination
  by (relation "measure (\<lambda>(array, chunkSize, i, result). length array - i)") auto

declare chunk_loop.simps [simp del]

text \<open>The \<^verbatim>\<open>while (result.length < chunks) result.push([])\<close> loop.\<close>

function pad_loop :: "'a list list \<Rightarrow> nat \<Rightarrow> 'a list list" where
  "pad_loop result chunks =
     (if length result < chunks then pad_loop (result @ [[]]) chunks else result)"
  by pat_completeness auto
termination
  by (relation "measure (\<lambda>(result, chunks). chunks - length result)") auto

declare pad_loop.simps [simp del]

text \<open>
  \<open>chunkArray\<close>. The pool size is a natural number. For \<open>chunks = 0\<close> the quotient is
  \<open>Infinity\<close> (or \<open>NaN\<close> for an empty array): a non-empty array is returned as one slice, an empty
  one as no slice, and nothing is padded.
\<close>

definition chunkArray :: "'a list \<Rightarrow> nat \<Rightarrow> 'a list list option" where
  "chunkArray array chunks =
     (if chunks = 0 then Some (if array = [] then [] else [array])
      else case chunk_loop array (chunkSize_of (length array) chunks) 0 [] of
             None \<Rightarrow> None
           | Some result \<Rightarrow> Some (pad_loop result chunks))"

section \<open>The worker pool (\<open>processTransactionsInParallel\<close>) and the run (\<open>scrapeTransactions\<close>)\<close>

text \<open>
  What the browser answers to a worker for its \<open>i\<close>-th job: the detail page, and whether the
  one-second wait after the job rejects.
\<close>

record job_env =
  job_page :: detail_page
  delay_throws :: bool

text \<open>
  The \<^verbatim>\<open>for\<close> loop of one worker over its chunk. The record is pushed and the id is added to
  \<open>processedOrders\<close> before the wait; all three are inside \<^verbatim>\<open>try\<close>, and the \<^verbatim>\<open>catch\<close> block pushes
  \<open>createTransaction(transaction)\<close>.
\<close>

function worker_loop ::
  "string \<Rightarrow> (nat \<Rightarrow> job_env) \<Rightarrow> BasicTransaction list \<Rightarrow> nat \<Rightarrow> obj list \<Rightarrow> scraper_state
     \<Rightarrow> obj list \<times> scraper_state" where
  "worker_loop screenshotsDir env chunk i results st =
     (if i < length chunk then
        let transaction = chunk ! i;
            (detailedTransaction, st1) =
               scrapeOrderDetailsWithPage screenshotsDir transaction (job_page (env i)) st;
            results1 = results @ [detailedTransaction];
            st2 = st1\<lparr>processedOrders := insert (bt_orderId transaction) (processedOrders st1)\<rparr>
        in if delay_throws (env i)
           then worker_loop screenshotsDir env chunk (i + 1)
                  (results1 @ [createTransaction (obj_of_basic transaction)]) st2
           else worker_loop screenshotsDir env chunk (i + 1) results1 st2
      else (results, st))"
  by pat_completeness auto
termination
  by (relation "measure (\<lambda>(screenshotsDir, env, chunk, i, results, st). length chunk - i)") auto

declare worker_loop.simps [simp del]

text \<open>
  What the browser answers to the pool: whether launching a browser or a context rejects,
  whether opening the page of worker \<open>index\<close> rejects, and the jobs of each worker.
\<close>

record pool_env =
  launch_throws :: bool
  newPage_throws :: "nat \<Rightarrow> bool"
  jobs_env :: "nat \<Rightarrow> nat \<Rightarrow> job_env"

text \<open>
  One worker: an empty chunk returns at once, otherwise a page is opened (outside any \<^verbatim>\<open>try\<close>,
  so the promise rejects when that fails: \<open>None\<close>) and the loop runs.
\<close>

definition run_worker ::
  "string \<Rightarrow> pool_env \<Rightarrow> nat \<Rightarrow> BasicTransaction list \<Rightarrow> scraper_state
     \<Rightarrow> obj list option \<times> scraper_state" where
  "run_worker screenshotsDir env index chunk st =
     (if chunk = [] then (Some [], st)
      else if newPage_throws env index then (None, st)
      else let (results, st1) = worker_loop screenshotsDir (jobs_env env index) chunk 0 [] st
           in (Some results, st1))"

text \<open>
  The workers share no page; they meet only in \<open>processedOrders\<close> and in the file system. They
  are run here one after the other in chunk order, which is one of the schedules of
  \<^verbatim>\<open>Promise.all\<close>, and their results are kept in chunk order as \<^verbatim>\<open>Promise.all\<close> does.
\<close>

fun run_workers ::
  "string \<Rightarrow> pool_env \<Rightarrow> nat \<Rightarrow> BasicTransaction list list \<Rightarrow> scraper_state
     \<Rightarrow> obj list option list \<times> scraper_state" where
  "run_workers screenshotsDir env index [] st = ([], st)"
| "run_workers screenshotsDir env index (chunk # rest) st =
     (let (r, st1) = run_worker screenshotsDir env index chunk st;
          (rs, st2) = run_workers screenshotsDir env (index + 1) rest st1
      in (r # rs, st2))"

definition PARALLEL_BROWSERS :: nat where
  "PARALLEL_BROWSERS = 4"

text \<open>
  \<open>processTransactionsInParallel\<close>: \<open>None\<close> when it does not return, otherwise whether it returned
  normally, and the state. When a worker's promise rejects, no result is added to
  \<^verbatim>\<open>transactionData.transactions\<close>.
\<close>

definition processTransactionsInParallel ::
  "string \<Rightarrow> pool_env \<Rightarrow> BasicTransaction list \<Rightarrow> scraper_state \<Rightarrow> (bool \<times> scraper_state) option" where
  "processTransactionsInParallel screenshotsDir env txs st =
     (if launch_throws env then Some (False, st)
      else case chunkArray txs PARALLEL_BROWSERS of
             None \<Rightarrow> None
           | Some chunks \<Rightarrow>
               let (allResults, st1) = run_workers screenshotsDir env 0 chunks st
               in if list_all (\<lambda>r. r \<noteq> None) allResults
                  then Some (True, st1\<lparr>transactions := transactions st1 @ concat (map (\<lambda>r. case r of None \<Rightarrow> [] | Some rs \<Rightarrow> rs) allResults)\<rparr>)
                  else Some (False, st1))"

text \<open>The summary written to \<^verbatim>\<open>metadata\<close>; its date fields are read from the clock and left out.\<close>

record metadata =
  totalTransactions :: nat
  totalAmount :: rat

text \<open>
  \<^verbatim>\<open>transactions.reduce((sum, t) => sum + (t.total || 0) - (t.refund || 0), 0)\<close>
\<close>

definition sum_net :: "obj list \<Rightarrow> rat" where
  "sum_net ts = foldl (\<lambda>sum t. sum + num_or0 (t ''total'') - num_or0 (t ''refund'')) 0 ts"

text \<open>The filtering step of \<open>scrapeTransactions\<close>.\<close>

definition newTransactions :: "string set \<Rightarrow> BasicTransaction list \<Rightarrow> BasicTransaction list" where
  "newTransactions processed txs = filter (\<lambda>t. \<not> (bt_orderId t \<in> processed)) txs"

text \<open>
  What the browser answers during a run: whether reaching the list view rejects, the listing,
  and the pool.
\<close>

record run_env =
  nav_throws :: bool
  run_listing :: listing
  run_pool :: pool_env

text \<open>
  \<open>scrapeTransactions\<close> from the pager's output on: filter, dispatch, summary. An exception
  is rethrown to the caller.
\<close>

definition process_listed ::
  "string \<Rightarrow> pool_env \<Rightarrow> BasicTransaction list \<Rightarrow> scraper_state
     \<Rightarrow> ((error + metadata) \<times> scraper_state) option" where
  "process_listed screenshotsDir env txs st =
     (let new = newTransactions (processedOrders st) txs;
          r = (if new = [] then Some (True, st)
               else processTransactionsInParallel screenshotsDir env new st)
      in case r of
           None \<Rightarrow> None
         | Some (ok, st1) \<Rightarrow>
             if \<not> ok then Some (Inl ScrapeError, st1)
             else Some (Inr \<lparr>totalTransactions = length (transactions st1),
                              totalAmount = sum_net (transactions st1)\<rparr>, st1))"

definition scrapeTransactions ::
  "string \<Rightarrow> string \<Rightarrow> run_env \<Rightarrow> scraper_state \<Rightarrow> ((error + metadata) \<times> scraper_state) option" where
  "scrapeTransactions baseUrl screenshotsDir env st =
     (if nav_throws env then Some (Inl ScrapeError, st)
      else case scrapeTransactionList baseUrl (run_listing env) of
             Inl e \<Rightarrow> Some (Inl e, st)
           | Inr txs \<Rightarrow> process_listed screenshotsDir (run_pool env) txs st)"

section \<open>Inputs used in the examples\<close>

text \<open>A record reference as the pager builds it for an id found in a link, with an amount.\<close>

definition record_ref :: "string \<Rightarrow> rat \<Rightarrow> BasicTransaction" where
  "record_ref i a = \<lparr>bt_orderId = i, bt_date = [], bt_total = Num a, bt_orderDetailsUrl = Some (orderUrl i)\<rparr>"

text \<open>A detail page on which every call succeeds and whose body has one line of text.\<close>

definition plain_doc :: detail_doc where
  "plain_doc = \<lparr>body = Elem ''body'' [Elem ''div'' [Text ''Ordered on July 2, 2024'']],
                 address_text = None, payment_text = None, item_elements = [], fails_at = None\<rparr>"

definition plain_page :: detail_page where
  "plain_page = \<lparr>goto_throws = False, doc = plain_doc, body_text_throws = False,
                  primary_shot_throws = False, fallback_shot_throws = False\<rparr>"

definition plain_jobs :: "nat \<Rightarrow> job_env" where
  "plain_jobs i = \<lparr>job_page = plain_page, delay_throws = False\<rparr>"

text \<open>A pool in which every browser starts and every page opens.\<close>

definition healthy_pool :: pool_env where
  "healthy_pool = \<lparr>launch_throws = False, newPage_throws = (\<lambda>index. False),
                    jobs_env = (\<lambda>index. plain_jobs)\<rparr>"

text \<open>The state at the start of a run whose dedup index is \<open>idx\<close>.\<close>

definition start_state :: "string set \<Rightarrow> scraper_state" where
  "start_state idx = \<lparr>processedOrders = idx, files = {}, transactions = [], capture_log = [], job_log = []\<rparr>"

text \<open>Reading one field of each object of a list.\<close>

definition field :: "string \<Rightarrow> obj \<Rightarrow> jsval option" where
  "field k t = t k"

text \<open>Jobs on a healthy page after each of which the one-second wait rejects.\<close>

definition closing_jobs :: "nat \<Rightarrow> job_env" where
  "closing_jobs i = \<lparr>job_page = plain_page, delay_throws = True\<rparr>"

definition closing_pool :: pool_env where
  "closing_pool = \<lparr>launch_throws = False, newPage_throws = (\<lambda>index. False),
                    jobs_env = (\<lambda>index. closing_jobs)\<rparr>"

text \<open>
  A row of the payments list: a charge with a link to its order. Two charges for one order,
  say two shipments, are two rows with the same link.
\<close>

definition charge_row :: "string \<Rightarrow> string \<Rightarrow> row" where
  "charge_row orderId amount =
     \<lparr>row_throws = False,
      rowText = Some (''Visa ****1234 -$'' @ amount @ '' Order #'' @ orderId),
      anchors = [''/gp/css/summary/edit.html?orderID='' @ orderId],
      clock = 0\<rparr>"

definition two_charges_page :: "nat \<Rightarrow> listing_page" where
  "two_charges_page n =
     \<lparr>page_rows = (if n = 1 then Some [charge_row ''113-1234567-1234567'' ''25.00'',
                                        charge_row ''113-1234567-1234567'' ''17.49'']
                    else Some []),
      page_next = Absent\<rparr>"

definition two_charges_listing :: listing where
  "two_charges_listing = \<lparr>prelude_throws = False, pages = two_charges_page, debug_throws = False\<rparr>"

text \<open>A listing that shows one row and a "Next Page" control on every page, without end.\<close>

definition endless_page :: "nat \<Rightarrow> listing_page" where
  "endless_page n =
     \<lparr>page_rows = Some [charge_row (''113-1234567-00000'' @ showNat (10 + n)) ''5.00''],
      page_next = Present\<rparr>"

definition endless_listing :: listing where
  "endless_listing = \<lparr>prelude_throws = False, pages = endless_page, debug_throws = False\<rparr>"

text \<open>A state in which the artifact of order \<open>222-2222222-2222222\<close> is already on disk.\<close>

definition resumed_state :: scraper_state where
  "resumed_state = (start_state {})\<lparr>files := {''screenshots/order-222-2222222-2222222.png''}\<rparr>"

text \<open>An item row whose price has two thousands separators.\<close>

definition big_item :: item_element where
  "big_item = \<lparr>name_text = Some ''Workstation'', price_text = Some ''$1,234,567.89'',
                image_src = None, item_throws = False\<rparr>"

text \<open>
  Three detail documents without any markup for refunds. In the first the label and the amount
  are the two children of one row. In the second the row also holds the subtotal, before the
  label. In the third the label and the amount are one text.
\<close>

definition doc_of_body :: "node \<Rightarrow> detail_doc" where
  "doc_of_body b = \<lparr>body = b, address_text = None, payment_text = None, item_elements = [],
                     fails_at = None\<rparr>"

definition labelled_body :: node where
  "labelled_body =
     Elem ''body'' [Elem ''div'' [Elem ''span'' [Text ''Refund Total''], Elem ''span'' [Text ''$12.50'']]]"

definition crowded_body :: node where
  "crowded_body =
     Elem ''body'' [Elem ''div'' [Elem ''span'' [Text ''Item(s) Subtotal: $40.00''],
                                  Elem ''span'' [Text ''Refund Total''],
                                  Elem ''span'' [Text ''$12.50'']]]"

definition inline_body :: node where
  "inline_body = Elem ''body'' [Elem ''div'' [Elem ''span'' [Text ''Refund Total: $12.50'']]]"

text \<open>The first document again, with a no-break space after the label.\<close>

definition nbsp_body :: node where
  "nbsp_body =
     Elem ''body'' [Elem ''div'' [Elem ''span'' [Text (''Refund Total'' @ [CHR 0xA0])],
                                  Elem ''span'' [Text ''$12.50'']]]"

section \<open>Properties of the partitioning\<close>

subsection \<open>The two loops in closed form\<close>

lemma ceil_nat_aux:
  assumes c: "0 < (c::nat)"
  shows "(n + c - 1) div c = n div c + (if n mod c = 0 then 0 else 1)"
proof (cases "n mod c = 0")
  case True
  then have "c dvd n" by (simp add: mod_eq_0_iff_dvd)
  then obtain q where n: "n = q * c" by (auto simp: dvd_def mult.commute)
  have "(q * c + (c - 1)) div c = q + (c - 1) div c" using c by (simp only: div_mult_self3)
  then have "(q * c + (c - 1)) div c = q" using c by simp
  moreover have "n + c - 1 = q * c + (c - 1)" using c n by simp
  ultimately show ?thesis using True n c by simp
next
  case False
  define r where "r = n mod c"
  define q where "q = n div c"
  have n: "n = q * c + r" by (simp add: q_def r_def)
  have r: "0 < r" "r < c" using False c by (simp_all add: r_def)
  have "n + c - 1 = (q + 1) * c + (r - 1)" using n r by (simp add: algebra_simps)
  moreover have "((q + 1) * c + (r - 1)) div c = (q + 1) + (r - 1) div c"
    using c by (simp only: div_mult_self3)
  moreover have "(r - 1) div c = 0" using r by simp
  ultimately show ?thesis using False by (simp add: q_def)
qed

lemma chunkSize_of_div: "0 < c \<Longrightarrow> chunkSize_of n c = (n + c - 1) div c"
proof -
  assume c: "0 < c"
  have "\<lceil>(of_nat n :: rat) / of_nat c\<rceil> = - (- int n div int c)"
    using ceiling_divide_eq_div[of "int n" "int c"] by simp
  also have "\<dots> = int (n div c + (if n mod c = 0 then 0 else 1))"
    using c by (simp add: zdiv_zminus1_eq_if flip: of_nat_mod of_nat_div)
  finally have "chunkSize_of n c = n div c + (if n mod c = 0 then 0 else 1)"
    unfolding chunkSize_of_def by (simp only: nat_int)
  then show ?thesis using ceil_nat_aux[OF c, of n] by simp
qed

lemma chunk_loop_steps:
  assumes cs: "0 < cs"
  shows "length xs \<le> i + m * cs \<Longrightarrow> (m = 0 \<or> i + (m - 1) * cs < length xs) \<Longrightarrow>
     chunk_loop xs cs i res = Some (res @ map (\<lambda>k. slice xs (i + k * cs) (i + k * cs + cs)) [0..<m])"
proof (induction m arbitrary: i res)
  case 0
  then show ?case by (simp add: chunk_loop.simps[of xs cs i res])
next
  case (Suc m)
  from Suc.prems(2) have "i + m * cs < length xs" by simp
  then have lt: "i < length xs" by simp
  have le': "length xs \<le> (i + cs) + m * cs" using Suc.prems(1) by (simp add: ac_simps)
  have more: "m = 0 \<or> (i + cs) + (m - 1) * cs < length xs"
  proof (cases m)
    case 0 then show ?thesis by simp
  next
    case (Suc j)
    with Suc.prems(2) show ?thesis by (simp add: ac_simps)
  qed
  have step: "chunk_loop xs cs i res = chunk_loop xs cs (i + cs) (res @ [slice xs i (i + cs)])"
    using lt cs by (simp add: chunk_loop.simps[of xs cs i res])
  have shift: "map (\<lambda>k. slice xs (i + k * cs) (i + k * cs + cs)) [0..<Suc m] =
          slice xs i (i + cs) # map (\<lambda>k. slice xs (i + cs + k * cs) (i + cs + k * cs + cs)) [0..<m]"
    by (simp add: map_upt_Suc ac_simps del: upt_Suc)
  show ?case
    unfolding step shift Suc.IH[OF le' more] by simp
qed

lemma pad_loop_char: "pad_loop res n = res @ replicate (n - length res) []"
proof (induction res n rule: pad_loop.induct)
  case (1 result chunks)
  show ?case
  proof (cases "length result < chunks")
    case True
    then have "replicate (chunks - length result) ([]::'a list) = [] # replicate (chunks - Suc (length result)) []"
      by (metis Suc_diff_Suc replicate_Suc)
    with True "1.IH" show ?thesis by (simp add: pad_loop.simps[of result chunks])
  next
    case False
    then show ?thesis by (simp add: pad_loop.simps[of result chunks])
  qed
qed

lemma ceil_mult_ge: "0 < (c::nat) \<Longrightarrow> n \<le> ((n + c - 1) div c) * c"
proof -
  assume c: "0 < c"
  have eq: "(n div c) * c + n mod c = n" by simp
  have lt: "n mod c < c" using c by simp
  show ?thesis
  proof (cases "n mod c = 0")
    case True
    with eq show ?thesis unfolding ceil_nat_aux[OF c, of n] by simp
  next
    case False
    have "n \<le> (n div c) * c + c" using eq lt by linarith
    with False show ?thesis unfolding ceil_nat_aux[OF c, of n] by simp
  qed
qed

lemma ceil_pred_mult_less: "0 < (c::nat) \<Longrightarrow> 0 < n \<Longrightarrow> ((n + c - 1) div c - 1) * c < n"
proof -
  assume c: "0 < c" and n: "0 < n"
  have eq: "n = (n div c) * c + n mod c" by simp
  show ?thesis
  proof (cases "n mod c = 0")
    case True
    then have "0 < n div c" using n c by (metis eq add.right_neutral mult_is_0 neq0_conv)
    then have "(n div c - 1) * c < (n div c) * c" using c by simp
    with True eq show ?thesis unfolding ceil_nat_aux[OF c, of n] by simp
  next
    case False
    then have "(n div c) * c < n" using eq by linarith
    with False show ?thesis unfolding ceil_nat_aux[OF c, of n] by simp
  qed
qed

lemma ceil_le_bound: "0 < (c::nat) \<Longrightarrow> n \<le> k * c \<Longrightarrow> (n + c - 1) div c \<le> k"
proof -
  assume c: "0 < c" and le: "n \<le> k * c"
  then have "n + c - 1 < Suc k * c" by simp
  then have "(n + c - 1) div c < Suc k" by (rule less_mult_imp_div_less)
  then show ?thesis by simp
qed

lemma chunkSize_of_pos: "0 < N \<Longrightarrow> 0 < n \<Longrightarrow> 0 < chunkSize_of n N"
  by (simp add: chunkSize_of_div div_greater_zero_iff)

lemma chunkSize_of_cover: "0 < N \<Longrightarrow> n \<le> N * chunkSize_of n N"
  using ceil_mult_ge[of N n] by (simp add: chunkSize_of_div mult.commute)

lemma slice_beyond: "length xs \<le> i \<Longrightarrow> slice xs i j = []"
  by (simp add: slice_def)

lemma chunkArray_char:
  assumes N: "0 < N"
  shows "chunkArray xs N =
    Some (map (\<lambda>k. slice xs (k * chunkSize_of (length xs) N)
                           (k * chunkSize_of (length xs) N + chunkSize_of (length xs) N)) [0..<N])"
proof (cases "xs = []")
  case True
  have "chunk_loop xs (chunkSize_of (length xs) N) 0 [] = Some []"
    using True by (simp add: chunk_loop.simps[of "[]" _ 0 "[]"])
  moreover have "map (\<lambda>k. slice xs (k * chunkSize_of (length xs) N)
                           (k * chunkSize_of (length xs) N + chunkSize_of (length xs) N)) [0..<N]
       = replicate N []"
    using True by (simp add: slice_def map_replicate_const)
  ultimately show ?thesis using N by (simp add: chunkArray_def pad_loop_char)
next
  case False
  define c where "c = chunkSize_of (length xs) N"
  define m where "m = (length xs + c - 1) div c"
  let ?f = "\<lambda>k. slice xs (k * c) (k * c + c)"
  have len: "0 < length xs" using False by simp
  have c: "0 < c" unfolding c_def using N len by (rule chunkSize_of_pos)
  have cover: "length xs \<le> m * c" unfolding m_def using c by (rule ceil_mult_ge)
  have last: "m = 0 \<or> 0 + (m - 1) * c < length xs"
    unfolding m_def using ceil_pred_mult_less[OF c len] by simp
  have mN: "m \<le> N" unfolding m_def
    using c chunkSize_of_cover[OF N, of "length xs"] by (intro ceil_le_bound) (simp_all add: c_def)
  have loop: "chunk_loop xs c 0 [] = Some (map ?f [0..<m])"
    using chunk_loop_steps[OF c, of xs 0 m "[]"] cover last by simp
  have "[0..<N] = [0..<m] @ [m..<N]"
    using mN upt_add_eq_append[of 0 m "N - m"] by simp
  then have "map ?f [0..<N] = map ?f [0..<m] @ map ?f [m..<N]"
    by simp
  moreover have "map ?f [m..<N] = replicate (N - m) []"
  proof -
    have "\<And>k. k \<in> set [m..<N] \<Longrightarrow> ?f k = []"
    proof -
      fix k assume "k \<in> set [m..<N]"
      then have "m \<le> k" by simp
      then have "m * c \<le> k * c" by (rule mult_le_mono1)
      with cover have "length xs \<le> k * c" by (rule le_trans)
      then show "?f k = []" by (rule slice_beyond)
    qed
    then have "map ?f [m..<N] = map (\<lambda>k. []) [m..<N]" by (intro map_cong) simp_all
    then show ?thesis by (simp add: map_replicate_const)
  qed
  ultimately have "pad_loop (map ?f [0..<m]) N = map ?f [0..<N]"
    by (simp add: pad_loop_char)
  with loop N show ?thesis by (simp add: chunkArray_def c_def)
qed

lemma concat_slices: "concat (map (\<lambda>k. slice xs (k * c) (k * c + c)) [0..<n]) = take (n * c) xs"
proof (induction n)
  case 0
  then show ?case by simp
next
  case (Suc n)
  have "take (n * c) xs @ take c (drop (n * c) xs) = take (n * c + c) xs"
    by (simp add: take_add)
  with Suc show ?case by (simp add: slice_def add.commute)
qed

subsection \<open>Cover and emptiness of chunks\<close>

lemma slice_nonempty_iff: "slice xs i (i + c) \<noteq> [] \<longleftrightarrow> 0 < c \<and> i < length xs"
  by (auto simp: slice_def)

text \<open>
  C2. For every job list \<open>xs\<close> and pool size \<open>N \<ge> 1\<close>, \<open>chunkArray\<close> returns, and returns exactly
  \<open>N\<close> chunks; chunk \<open>k\<close> is the contiguous slice of the input from position \<open>k * chunkSize\<close> to
  \<open>(k + 1) * chunkSize\<close> with \<open>chunkSize = ceil(M / N)\<close>; and the chunks concatenated in chunk order
  are the input list again, so every job lies in exactly one chunk, once.
\<close>

theorem chunkArray_total_cover:
  assumes "1 \<le> N"
  shows "\<exists>chunks. chunkArray xs N = Some chunks \<and> length chunks = N \<and> concat chunks = xs \<and>
           (\<forall>k<N. chunks ! k = slice xs (k * chunkSize_of (length xs) N)
                                        ((k + 1) * chunkSize_of (length xs) N))"
proof -
  let ?c = "chunkSize_of (length xs) N"
  let ?chunks = "map (\<lambda>k. slice xs (k * ?c) (k * ?c + ?c)) [0..<N]"
  from assms have N: "0 < N" by simp
  have "chunkArray xs N = Some ?chunks" using N by (rule chunkArray_char)
  moreover have "length ?chunks = N" by simp
  moreover have "concat ?chunks = xs"
    using chunkSize_of_cover[OF N, of "length xs"] by (simp add: concat_slices)
  moreover have "\<forall>k<N. ?chunks ! k = slice xs (k * ?c) ((k + 1) * ?c)"
    by (simp add: add.commute)
  ultimately show ?thesis by blast
qed

theorem chunkArray_total_cover_witness:
  "(1::nat) \<le> 4 \<and>
   (\<exists>chunks. chunkArray [10, 20, 30, 40, 50 :: nat] 4 = Some chunks \<and> length chunks = 4 \<and>
      concat chunks = [10, 20, 30, 40, 50] \<and>
      (\<forall>k<4. chunks ! k = slice [10, 20, 30, 40, 50] (k * chunkSize_of (length [10, 20, 30, 40, 50 :: nat]) 4)
                                        ((k + 1) * chunkSize_of (length [10, 20, 30, 40, 50 :: nat]) 4)))"
  using chunkArray_total_cover[of 4 "[10, 20, 30, 40, 50 :: nat]"] by simp

text \<open>
  C8, as stated, fails: five jobs on four workers give chunks of two, two, one and none.
\<close>

theorem chunkArray_empty_chunk_counterexample:
  "(4::nat) \<le> length [10, 20, 30, 40, 50 :: nat] \<and>
   chunkArray [10, 20, 30, 40, 50 :: nat] 4 = Some [[10, 20], [30, 40], [50], []]"
  by code_simp

text \<open>
  C8, amended. For a pool size \<open>N \<ge> 1\<close> and \<open>M\<close> jobs, all \<open>N\<close> chunks are non-empty exactly when
  \<open>(N - 1) * ceil(M / N) < M\<close>; \<open>M \<ge> N\<close> is necessary for that, and not sufficient.
\<close>

theorem chunkArray_nonempty_iff:
  assumes "1 \<le> N"
  shows "\<exists>chunks. chunkArray xs N = Some chunks \<and>
           ((\<forall>c \<in> set chunks. c \<noteq> []) \<longleftrightarrow> (N - 1) * chunkSize_of (length xs) N < length xs) \<and>
           ((\<forall>c \<in> set chunks. c \<noteq> []) \<longrightarrow> N \<le> length xs)"
proof -
  let ?c = "chunkSize_of (length xs) N"
  let ?chunks = "map (\<lambda>k. slice xs (k * ?c) (k * ?c + ?c)) [0..<N]"
  from assms have N: "0 < N" by simp
  have char: "chunkArray xs N = Some ?chunks" using N by (rule chunkArray_char)
  have all: "(\<forall>c \<in> set ?chunks. c \<noteq> []) \<longleftrightarrow> (\<forall>k<N. 0 < ?c \<and> k * ?c < length xs)"
    by (auto simp: slice_nonempty_iff)
  have iff: "(\<forall>k<N. 0 < ?c \<and> k * ?c < length xs) \<longleftrightarrow> (N - 1) * ?c < length xs"
  proof
    assume "\<forall>k<N. 0 < ?c \<and> k * ?c < length xs"
    with N show "(N - 1) * ?c < length xs" by simp
  next
    assume last: "(N - 1) * ?c < length xs"
    then have "0 < length xs" by (rule gr_implies_not_zero[THEN neq0_conv[THEN iffD1]])
    with N have c: "0 < ?c" by (rule chunkSize_of_pos)
    show "\<forall>k<N. 0 < ?c \<and> k * ?c < length xs"
    proof (intro allI impI conjI)
      fix k assume "k < N"
      then have "k \<le> N - 1" by simp
      then have "k * ?c \<le> (N - 1) * ?c" by (rule mult_le_mono1)
      then show "k * ?c < length xs" using last by (rule le_less_trans)
    qed (rule c)
  qed
  have nec: "(N - 1) * ?c < length xs \<Longrightarrow> N \<le> length xs"
  proof -
    assume last: "(N - 1) * ?c < length xs"
    then have "0 < length xs" by (rule gr_implies_not_zero[THEN neq0_conv[THEN iffD1]])
    with N have "0 < ?c" by (rule chunkSize_of_pos)
    then have "(N - 1) * 1 \<le> (N - 1) * ?c" by (intro mult_le_mono2) simp
    then have "N - 1 \<le> (N - 1) * ?c" by (simp only: mult_1_right)
    then have "N - 1 < length xs" using last by (rule le_less_trans)
    then show ?thesis by simp
  qed
  from char all iff nec show ?thesis by (intro exI[of _ ?chunks]) blast
qed

theorem chunkArray_nonempty_iff_witness:
  "(1::nat) \<le> 4 \<and>
   (\<exists>chunks. chunkArray [10, 20, 30, 40, 50, 60, 70, 80 :: nat] 4 = Some chunks \<and>
      ((\<forall>c \<in> set chunks. c \<noteq> []) \<longleftrightarrow>
         (4 - 1) * chunkSize_of (length [10, 20, 30, 40, 50, 60, 70, 80 :: nat]) 4
           < length [10, 20, 30, 40, 50, 60, 70, 80 :: nat]) \<and>
      ((\<forall>c \<in> set chunks. c \<noteq> []) \<longrightarrow> 4 \<le> length [10, 20, 30, 40, 50, 60, 70, 80 :: nat]))"
  using chunkArray_nonempty_iff[of 4 "[10, 20, 30, 40, 50, 60, 70, 80 :: nat]"] by simp

section \<open>Properties of the jobs and the workers\<close>

subsection \<open>State after a job and after a worker\<close>

lemma scrape_state:
  "snd (scrapeOrderDetailsWithPage dir t pg st) =
     (let st0 = st\<lparr>job_log := job_log st @ [t]\<rparr>
      in if (opt_str (bt_orderDetailsUrl t) \<noteq> [] \<and> goto_throws pg) \<or> screenshotPath_of dir t \<in> files st0
         then st0 else snd (takeSmartOrderScreenshot pg (screenshotPath_of dir t) st0))"
  by (simp add: scrapeOrderDetailsWithPage_def Let_def split_beta)

lemma takeSmart_job_log: "job_log (snd (takeSmartOrderScreenshot pg p st)) = job_log st"
  by (simp add: takeSmartOrderScreenshot_def Let_def)

lemma takeSmart_processed: "processedOrders (snd (takeSmartOrderScreenshot pg p st)) = processedOrders st"
  by (simp add: takeSmartOrderScreenshot_def Let_def)

lemma scrape_job_log:
  "job_log (snd (scrapeOrderDetailsWithPage dir t pg st)) = job_log st @ [t]"
  by (simp add: scrape_state Let_def takeSmart_job_log)

lemma scrape_processed:
  "processedOrders (snd (scrapeOrderDetailsWithPage dir t pg st)) = processedOrders st"
  by (simp add: scrape_state Let_def takeSmart_processed)

lemma worker_loop_done:
  "\<not> i < length chunk \<Longrightarrow> worker_loop dir env chunk i results st = (results, st)"
  by (simp add: worker_loop.simps[of dir env chunk i results st])

lemma worker_loop_step:
  "i < length chunk \<Longrightarrow>
   worker_loop dir env chunk i results st =
     worker_loop dir env chunk (i + 1)
       (results @ fst (scrapeOrderDetailsWithPage dir (chunk ! i) (job_page (env i)) st) #
          (if delay_throws (env i) then [createTransaction (obj_of_basic (chunk ! i))] else []))
       ((snd (scrapeOrderDetailsWithPage dir (chunk ! i) (job_page (env i)) st))
          \<lparr>processedOrders := insert (bt_orderId (chunk ! i))
             (processedOrders (snd (scrapeOrderDetailsWithPage dir (chunk ! i) (job_page (env i)) st)))\<rparr>)"
  by (simp add: worker_loop.simps[of dir env chunk i results st] Let_def split_beta)

lemma worker_loop_job_log:
  "job_log (snd (worker_loop dir env chunk i results st)) = job_log st @ drop i chunk"
proof (induction "length chunk - i" arbitrary: i results st)
  case 0
  then show ?case by (simp add: worker_loop_done)
next
  case (Suc k)
  then have lt: "i < length chunk" and k: "k = length chunk - (i + 1)" by simp_all
  have dr: "drop i chunk = chunk ! i # drop (i + 1) chunk"
    using lt by (simp add: Cons_nth_drop_Suc)
  show ?case
    unfolding worker_loop_step[OF lt] Suc.hyps(1)[OF k] dr
    by (simp add: scrape_job_log)
qed

lemma run_worker_job_log:
  "job_log (snd (run_worker dir env index chunk st)) =
     job_log st @ (if newPage_throws env index then [] else chunk)"
  using worker_loop_job_log[of dir "jobs_env env index" chunk 0 "[]" st]
  by (simp add: run_worker_def split_beta)

lemma run_workers_job_log_subset:
  "set (job_log (snd (run_workers dir env index chunks st))) \<subseteq> set (job_log st) \<union> set (concat chunks)"
proof (induction chunks arbitrary: index st)
  case Nil
  then show ?case by simp
next
  case (Cons chunk rest)
  have "set (job_log (snd (run_worker dir env index chunk st))) \<subseteq> set (job_log st) \<union> set chunk"
    by (simp add: run_worker_job_log)
  with Cons[of "index + 1" "snd (run_worker dir env index chunk st)"] show ?case
    by (auto simp: split_beta Let_def)
qed

lemma run_workers_job_log_all:
  "\<forall>i. \<not> newPage_throws env i \<Longrightarrow>
   job_log (snd (run_workers dir env index chunks st)) = job_log st @ concat chunks"
proof (induction chunks arbitrary: index st)
  case Nil
  then show ?case by simp
next
  case (Cons chunk rest)
  then show ?case by (simp add: split_beta Let_def run_worker_job_log)
qed

lemma chunkArray_concat:
  "chunkArray xs PARALLEL_BROWSERS = Some chunks \<Longrightarrow> concat chunks = xs"
  using chunkArray_char[of PARALLEL_BROWSERS xs]
        chunkSize_of_cover[of PARALLEL_BROWSERS "length xs"]
  by (auto simp: PARALLEL_BROWSERS_def concat_slices)

lemma chunkArray_returns: "\<exists>chunks. chunkArray xs PARALLEL_BROWSERS = Some chunks"
  using chunkArray_char[of PARALLEL_BROWSERS xs] by (simp add: PARALLEL_BROWSERS_def)

lemma parallel_returns:
  "\<exists>ok st'. processTransactionsInParallel dir env txs st = Some (ok, st')"
proof -
  obtain chunks where "chunkArray txs PARALLEL_BROWSERS = Some chunks"
    using chunkArray_returns by blast
  then show ?thesis
    by (auto simp: processTransactionsInParallel_def split_beta Let_def)
qed

lemma parallel_job_log_subset:
  assumes "processTransactionsInParallel dir env txs st = Some (ok, st')"
  shows "set (job_log st') \<subseteq> set (job_log st) \<union> set txs"
proof (cases "launch_throws env")
  case True
  with assms show ?thesis by (auto simp: processTransactionsInParallel_def)
next
  case False
  obtain chunks where c: "chunkArray txs PARALLEL_BROWSERS = Some chunks"
    using chunkArray_returns by blast
  have cc: "concat chunks = txs" using c by (rule chunkArray_concat)
  have "job_log st' = job_log (snd (run_workers dir env 0 chunks st))"
    using assms False c by (auto simp: processTransactionsInParallel_def split_beta Let_def split: if_splits)
  with run_workers_job_log_subset[of dir env 0 chunks st] cc show ?thesis by simp
qed

lemma parallel_job_log_all:
  assumes "processTransactionsInParallel dir env txs st = Some (ok, st')"
    and "\<not> launch_throws env" and "\<forall>i. \<not> newPage_throws env i"
  shows "job_log st' = job_log st @ txs"
proof -
  obtain chunks where c: "chunkArray txs PARALLEL_BROWSERS = Some chunks"
    using chunkArray_returns by blast
  have cc: "concat chunks = txs" using c by (rule chunkArray_concat)
  have "job_log st' = job_log (snd (run_workers dir env 0 chunks st))"
    using assms c by (auto simp: processTransactionsInParallel_def split_beta Let_def split: if_splits)
  with run_workers_job_log_all[OF assms(3), of dir 0 chunks st] cc show ?thesis by simp
qed

lemma process_listed_returns:
  "\<exists>r st'. process_listed dir env txs st = Some (r, st')"
proof (cases "newTransactions (processedOrders st) txs = []")
  case True
  then show ?thesis by (simp add: process_listed_def)
next
  case False
  obtain ok st1 where "processTransactionsInParallel dir env (newTransactions (processedOrders st) txs) st = Some (ok, st1)"
    using parallel_returns by blast
  with False show ?thesis by (simp add: process_listed_def)
qed

lemma process_listed_job_log_subset:
  assumes "process_listed dir env txs st = Some (r, st')"
  shows "set (job_log st') \<subseteq> set (job_log st) \<union> set (newTransactions (processedOrders st) txs)"
proof (cases "newTransactions (processedOrders st) txs = []")
  case True
  with assms show ?thesis by (auto simp: process_listed_def)
next
  case False
  obtain ok st1 where p: "processTransactionsInParallel dir env (newTransactions (processedOrders st) txs) st = Some (ok, st1)"
    using parallel_returns by blast
  with assms False have "st' = st1" by (auto simp: process_listed_def split: if_splits)
  with parallel_job_log_subset[OF p] show ?thesis by simp
qed

lemma process_listed_job_log_all:
  assumes "process_listed dir env txs st = Some (r, st')"
    and "\<not> launch_throws env" and "\<forall>i. \<not> newPage_throws env i"
  shows "job_log st' = job_log st @ newTransactions (processedOrders st) txs"
proof (cases "newTransactions (processedOrders st) txs = []")
  case True
  with assms show ?thesis by (auto simp: process_listed_def)
next
  case False
  obtain ok st1 where p: "processTransactionsInParallel dir env (newTransactions (processedOrders st) txs) st = Some (ok, st1)"
    using parallel_returns by blast
  with assms False have "st' = st1" by (auto simp: process_listed_def split: if_splits)
  with parallel_job_log_all[OF p assms(2,3)] show ?thesis by simp
qed

section \<open>The dedup filter\<close>

lemma newTransactions_fresh:
  "j \<in> set (newTransactions processed txs) \<Longrightarrow> bt_orderId j \<notin> processed \<and> j \<in> set txs"
  by (simp add: newTransactions_def)

text \<open>
  C1. Whatever the pager returned and whatever the pool meets, the part of \<open>scrapeTransactions\<close>
  after the pager returns, and every job it dispatched (every call of
  \<open>scrapeOrderDetailsWithPage\<close>) is for a listed reference whose id was not in \<open>processedOrders\<close>
  at the start. When every browser starts and every page opens, the jobs are exactly the
  references that pass the filter, in order; with the index \<open>{"111-1111111-1111111"}\<close> and the
  references for \<open>"111-1111111-1111111"\<close> (amount 10) and \<open>"222-2222222-2222222"\<close> (amount 20)
  that is one job, for \<open>"222-2222222-2222222"\<close>.
\<close>

theorem no_job_for_processed_order:
  assumes "job_log st = []"
  shows "\<exists>r st'. process_listed dir env txs st = Some (r, st') \<and>
           (\<forall>j \<in> set (job_log st'). bt_orderId j \<notin> processedOrders st \<and> j \<in> set txs) \<and>
           (\<not> launch_throws env \<and> (\<forall>i. \<not> newPage_throws env i) \<longrightarrow>
              job_log st' = newTransactions (processedOrders st) txs \<and>
              (processedOrders st = {''111-1111111-1111111''} \<and>
               txs = [record_ref ''111-1111111-1111111'' 10, record_ref ''222-2222222-2222222'' 20] \<longrightarrow>
               job_log st' = [record_ref ''222-2222222-2222222'' 20]))"
proof -
  obtain r st' where p: "process_listed dir env txs st = Some (r, st')"
    using process_listed_returns by blast
  have sub: "set (job_log st') \<subseteq> set (newTransactions (processedOrders st) txs)"
    using process_listed_job_log_subset[OF p] assms by simp
  have fresh: "\<forall>j \<in> set (job_log st'). bt_orderId j \<notin> processedOrders st \<and> j \<in> set txs"
    using sub newTransactions_fresh by blast
  have ex: "newTransactions {''111-1111111-1111111''}
              [record_ref ''111-1111111-1111111'' 10, record_ref ''222-2222222-2222222'' 20]
            = [record_ref ''222-2222222-2222222'' 20]"
    by (simp add: newTransactions_def record_ref_def)
  have healthy: "\<not> launch_throws env \<and> (\<forall>i. \<not> newPage_throws env i) \<longrightarrow>
              job_log st' = newTransactions (processedOrders st) txs"
    using process_listed_job_log_all[OF p] assms by simp
  from p fresh healthy ex show ?thesis by (intro exI[of _ r] exI[of _ st']) auto
qed

theorem no_job_for_processed_order_witness:
  "job_log (start_state {''111-1111111-1111111''}) = [] \<and>
   (\<exists>r st'. process_listed ''screenshots'' healthy_pool
               [record_ref ''111-1111111-1111111'' 10, record_ref ''222-2222222-2222222'' 20]
               (start_state {''111-1111111-1111111''}) = Some (r, st') \<and>
             job_log st' = [record_ref ''222-2222222-2222222'' 20])"
proof (rule conjI)
  show h: "job_log (start_state {''111-1111111-1111111''}) = []"
    by (simp add: start_state_def)
  show "\<exists>r st'. process_listed ''screenshots'' healthy_pool
               [record_ref ''111-1111111-1111111'' 10, record_ref ''222-2222222-2222222'' 20]
               (start_state {''111-1111111-1111111''}) = Some (r, st') \<and>
             job_log st' = [record_ref ''222-2222222-2222222'' 20]"
    using no_job_for_processed_order[OF h, of "''screenshots''" healthy_pool
            "[record_ref ''111-1111111-1111111'' 10, record_ref ''222-2222222-2222222'' 20]"]
    by (auto simp: healthy_pool_def start_state_def)
qed

section \<open>One record per job\<close>

lemma worker_loop_length:
  "length (fst (worker_loop dir env chunk i results st)) =
     length results + (length chunk - i) + length (filter (\<lambda>k. delay_throws (env k)) [i..<length chunk])"
proof (induction "length chunk - i" arbitrary: i results st)
  case 0
  then show ?case by (simp add: worker_loop_done)
next
  case (Suc k)
  then have lt: "i < length chunk" and k: "k = length chunk - (i + 1)" by simp_all
  have up: "[i..<length chunk] = i # [i + 1..<length chunk]"
    using lt by (simp add: upt_conv_Cons)
  show ?case
    unfolding worker_loop_step[OF lt] Suc.hyps(1)[OF k] up
    using lt by (cases "delay_throws (env i)") simp_all
qed

lemma worker_one_record_per_job:
  assumes "\<forall>k<length chunk. \<not> delay_throws (env k)"
  shows "length (fst (worker_loop dir env chunk 0 [] st)) = length chunk"
proof -
  have "filter (\<lambda>k. delay_throws (env k)) [0..<length chunk] = []"
    using assms by (simp add: filter_empty_conv)
  then show ?thesis by (simp add: worker_loop_length)
qed

lemma scrape_goto_fails:
  "opt_str (bt_orderDetailsUrl t) \<noteq> [] \<Longrightarrow> goto_throws pg \<Longrightarrow>
   fst (scrapeOrderDetailsWithPage dir t pg st) = basic_record t"
  by (simp add: scrapeOrderDetailsWithPage_def)

lemma basic_record_fields:
  "basic_record t ''orderId'' = Some (JStr (bt_orderId t))"
  "basic_record t ''date'' = Some (JStr (bt_date t))"
  "basic_record t ''total'' = Some (JNum (jsnum_or (bt_total t) 0))"
  "basic_record t ''orderScreenshot'' = Some (JStr [])"
  "basic_record t ''items'' = Some (JItems [])"
  by (auto simp: basic_record_def createTransaction_def job_fields_def js_or_def truthy_def
        jsnum_or_def Let_def split: option.splits jsnum.splits)

text \<open>
  C3. The worker does not always produce one record per job. When \<open>scrapeOrderDetailsWithPage\<close>
  fails inside, it returns the minimal record and the job has one record; but the record is
  pushed before the one-second wait, and when that wait rejects the \<^verbatim>\<open>catch\<close> block pushes
  \<open>createTransaction(transaction)\<close> as well. Here a chunk of one job of amount 20 yields two
  records for the same id, and the run counts two transactions and a total of 40.
\<close>

theorem worker_wait_rejects_two_records:
  "length (fst (worker_loop ''screenshots'' closing_jobs [record_ref ''222-2222222-2222222'' 20] 0 []
                  (start_state {}))) = 2 \<and>
   map (field ''orderId'')
       (fst (worker_loop ''screenshots'' closing_jobs [record_ref ''222-2222222-2222222'' 20] 0 []
                  (start_state {})))
     = [Some (JStr ''222-2222222-2222222''), Some (JStr ''222-2222222-2222222'')] \<and>
   map (field ''orderScreenshot'')
       (fst (worker_loop ''screenshots'' closing_jobs [record_ref ''222-2222222-2222222'' 20] 0 []
                  (start_state {})))
     = [Some (JStr ''screenshots/order-222-2222222-2222222.png''), Some (JStr [])] \<and>
   map_option fst (process_listed ''screenshots'' closing_pool [record_ref ''222-2222222-2222222'' 20]
                     (start_state {}))
     = Some (Inr \<lparr>totalTransactions = 2, totalAmount = 40\<rparr>)"
  by code_simp

theorem worker_wait_rejects_two_records_witness:
  "length (fst (worker_loop ''screenshots'' closing_jobs [record_ref ''222-2222222-2222222'' 20] 0 []
                  (start_state {})))
     = Suc (length [record_ref ''222-2222222-2222222'' 20])"
  using worker_wait_rejects_two_records by simp

section \<open>Net amounts and the summary\<close>

lemma createTransaction_no_netAmount: "createTransaction data ''netAmount'' = None"
  by (simp add: createTransaction_def)

lemma scrape_no_netAmount: "fst (scrapeOrderDetailsWithPage dir t pg st) ''netAmount'' = None"
  by (simp add: scrapeOrderDetailsWithPage_def Let_def split_beta basic_record_def
        createTransaction_no_netAmount)

lemma takeSmart_transactions: "transactions (snd (takeSmartOrderScreenshot pg p st)) = transactions st"
  by (simp add: takeSmartOrderScreenshot_def Let_def)

lemma scrape_transactions:
  "transactions (snd (scrapeOrderDetailsWithPage dir t pg st)) = transactions st"
  by (simp add: scrape_state Let_def takeSmart_transactions)

lemma worker_loop_transactions:
  "transactions (snd (worker_loop dir env chunk i results st)) = transactions st"
proof (induction "length chunk - i" arbitrary: i results st)
  case 0
  then show ?case by (simp add: worker_loop_done)
next
  case (Suc k)
  then have lt: "i < length chunk" and k: "k = length chunk - (i + 1)" by simp_all
  show ?case
    unfolding worker_loop_step[OF lt] Suc.hyps(1)[OF k]
    by (simp add: scrape_transactions)
qed

lemma worker_loop_no_netAmount:
  "\<forall>t \<in> set results. t ''netAmount'' = None \<Longrightarrow>
   \<forall>t \<in> set (fst (worker_loop dir env chunk i results st)). t ''netAmount'' = None"
proof (induction "length chunk - i" arbitrary: i results st)
  case 0
  then show ?case by (simp add: worker_loop_done)
next
  case (Suc k)
  then have lt: "i < length chunk" and k: "k = length chunk - (i + 1)" by simp_all
  show ?case
    unfolding worker_loop_step[OF lt]
    by (rule Suc.hyps(1)[OF k])
       (use Suc.prems in \<open>auto simp: scrape_no_netAmount createTransaction_no_netAmount\<close>)
qed

lemma run_worker_transactions:
  "transactions (snd (run_worker dir env index chunk st)) = transactions st"
  by (simp add: run_worker_def split_beta worker_loop_transactions)

lemma run_worker_no_netAmount:
  "fst (run_worker dir env index chunk st) = Some rs \<Longrightarrow> \<forall>t \<in> set rs. t ''netAmount'' = None"
  using worker_loop_no_netAmount[of "[]" dir "jobs_env env index" chunk 0 st]
  by (auto simp: run_worker_def split_beta split: if_splits)

lemma run_workers_transactions:
  "transactions (snd (run_workers dir env index chunks st)) = transactions st"
  by (induction chunks arbitrary: index st) (simp_all add: split_beta Let_def run_worker_transactions)

lemma run_workers_no_netAmount:
  "Some rs \<in> set (fst (run_workers dir env index chunks st)) \<Longrightarrow> \<forall>t \<in> set rs. t ''netAmount'' = None"
proof (induction chunks arbitrary: index st)
  case Nil
  then show ?case by simp
next
  case (Cons chunk rest)
  then show ?case
    using run_worker_no_netAmount[of dir env index chunk st rs]
    by (auto simp: split_beta Let_def)
qed

lemma parallel_no_netAmount:
  assumes "processTransactionsInParallel dir env txs st = Some (ok, st')"
  shows "\<forall>t \<in> set (transactions st'). t ''netAmount'' = None \<or> t \<in> set (transactions st)"
proof (cases "launch_throws env")
  case True
  with assms show ?thesis by (auto simp: processTransactionsInParallel_def)
next
  case False
  obtain chunks where c: "chunkArray txs PARALLEL_BROWSERS = Some chunks"
    using chunkArray_returns by blast
  let ?rw = "run_workers dir env 0 chunks st"
  have "st' = snd ?rw \<or>
        st' = (snd ?rw)\<lparr>transactions := transactions (snd ?rw) @
                concat (map (\<lambda>r. case r of None \<Rightarrow> [] | Some rs \<Rightarrow> rs) (fst ?rw))\<rparr>"
    using assms False c by (auto simp: processTransactionsInParallel_def split_beta Let_def split: if_splits)
  moreover have "\<forall>t \<in> set (concat (map (\<lambda>r. case r of None \<Rightarrow> [] | Some rs \<Rightarrow> rs) (fst ?rw))).
                   t ''netAmount'' = None"
    using run_workers_no_netAmount[of _ dir env 0 chunks st]
    by (auto split: option.splits)
  ultimately show ?thesis
    using run_workers_transactions[of dir env 0 chunks st] by auto
qed

lemma foldl_net:
  "foldl (\<lambda>sum t. sum + f t - g t) a ts = a + sum_list (map f ts) - sum_list (map (g :: 'a \<Rightarrow> rat) ts)"
  by (induction ts arbitrary: a) simp_all

lemma sum_net_sums:
  "sum_net ts = (\<Sum>t\<leftarrow>ts. num_or0 (t ''total'')) - (\<Sum>t\<leftarrow>ts. num_or0 (t ''refund''))"
  by (simp add: sum_net_def foldl_net)

text \<open>
  C4, as stated, fails: a record built by \<open>createTransaction\<close> has no \<open>netAmount\<close> field, also
  when a total and a refund are passed in.
\<close>

theorem no_netAmount_field_counterexample:
  "createTransaction [''orderId'' \<mapsto> JStr ''222-2222222-2222222'', ''total'' \<mapsto> JNum (Num 20),
                      ''refund'' \<mapsto> JNum (Num 5)] ''netAmount'' = None \<and>
   map (field ''netAmount'')
       (fst (worker_loop ''screenshots'' plain_jobs [record_ref ''222-2222222-2222222'' 20] 0 []
               (start_state {}))) = [None]"
proof
  show "createTransaction [''orderId'' \<mapsto> JStr ''222-2222222-2222222'', ''total'' \<mapsto> JNum (Num 20),
                      ''refund'' \<mapsto> JNum (Num 5)] ''netAmount'' = None"
    by (simp add: createTransaction_def)
  show "map (field ''netAmount'')
       (fst (worker_loop ''screenshots'' plain_jobs [record_ref ''222-2222222-2222222'' 20] 0 []
               (start_state {}))) = [None]"
    by code_simp
qed

text \<open>
  C4, amended. No record carries a \<open>netAmount\<close> field: \<open>createTransaction\<close> never sets one, and
  every record that a run adds to the persisted list lacks it. The \<open>totalAmount\<close> that
  \<open>scrapeTransactions\<close> computes is the sum over the persisted records of \<open>total || 0\<close> minus the
  sum of \<open>refund || 0\<close>, an absent field counting as 0 (in exact arithmetic), and
  \<open>totalTransactions\<close> is their number.
\<close>

theorem totalAmount_is_total_minus_refund:
  "createTransaction data ''netAmount'' = None \<and>
   sum_net ts = (\<Sum>t\<leftarrow>ts. num_or0 (t ''total'')) - (\<Sum>t\<leftarrow>ts. num_or0 (t ''refund'')) \<and>
   (process_listed dir env txs st = Some (Inr m, st') \<longrightarrow>
      totalTransactions m = length (transactions st') \<and>
      totalAmount m = (\<Sum>t\<leftarrow>transactions st'. num_or0 (t ''total''))
                      - (\<Sum>t\<leftarrow>transactions st'. num_or0 (t ''refund'')) \<and>
      (\<forall>t \<in> set (transactions st'). t ''netAmount'' = None \<or> t \<in> set (transactions st)))"
proof (intro conjI impI)
  show "createTransaction data ''netAmount'' = None" by (rule createTransaction_no_netAmount)
  show "sum_net ts = (\<Sum>t\<leftarrow>ts. num_or0 (t ''total'')) - (\<Sum>t\<leftarrow>ts. num_or0 (t ''refund''))"
    by (rule sum_net_sums)
next
  assume p: "process_listed dir env txs st = Some (Inr m, st')"
  let ?new = "newTransactions (processedOrders st) txs"
  have m: "m = \<lparr>totalTransactions = length (transactions st'), totalAmount = sum_net (transactions st')\<rparr>"
    using p by (auto simp: process_listed_def Let_def split: if_splits option.splits prod.splits)
  show "totalTransactions m = length (transactions st')" using m by simp
  show "totalAmount m = (\<Sum>t\<leftarrow>transactions st'. num_or0 (t ''total''))
                      - (\<Sum>t\<leftarrow>transactions st'. num_or0 (t ''refund''))"
    using m by (simp add: sum_net_sums)
  show "\<forall>t \<in> set (transactions st'). t ''netAmount'' = None \<or> t \<in> set (transactions st)"
  proof (cases "?new = []")
    case True
    with p show ?thesis by (auto simp: process_listed_def)
  next
    case False
    obtain ok st1 where q: "processTransactionsInParallel dir env ?new st = Some (ok, st1)"
      using parallel_returns by blast
    with p False have "st' = st1" by (auto simp: process_listed_def split: if_splits)
    with parallel_no_netAmount[OF q] show ?thesis by simp
  qed
qed

theorem totalAmount_is_total_minus_refund_witness:
  "\<exists>m st'. process_listed ''screenshots'' healthy_pool
              [record_ref ''111-1111111-1111111'' 10, record_ref ''222-2222222-2222222'' 20]
              (start_state {''111-1111111-1111111''}) = Some (Inr m, st') \<and>
            totalTransactions m = 1 \<and> totalAmount m = 20 \<and>
            totalAmount m = (\<Sum>t\<leftarrow>transactions st'. num_or0 (t ''total''))
                            - (\<Sum>t\<leftarrow>transactions st'. num_or0 (t ''refund'')) \<and>
            (\<forall>t \<in> set (transactions st'). t ''netAmount'' = None)"
proof -
  let ?run = "process_listed ''screenshots'' healthy_pool
              [record_ref ''111-1111111-1111111'' 10, record_ref ''222-2222222-2222222'' 20]
              (start_state {''111-1111111-1111111''})"
  have ev: "map_option fst ?run = Some (Inr \<lparr>totalTransactions = 1, totalAmount = 20\<rparr>)"
    by code_simp
  then obtain st' where r: "?run = Some (Inr \<lparr>totalTransactions = 1, totalAmount = 20\<rparr>, st')"
    by (cases ?run) auto
  have "transactions (start_state {''111-1111111-1111111''}) = []" by (simp add: start_state_def)
  with totalAmount_is_total_minus_refund[of _ _ "''screenshots''" healthy_pool
      "[record_ref ''111-1111111-1111111'' 10, record_ref ''222-2222222-2222222'' 20]"
      "start_state {''111-1111111-1111111''}" "\<lparr>totalTransactions = 1, totalAmount = 20\<rparr>" st'] r
  show ?thesis by auto
qed

section \<open>The walk over the listing\<close>

lemma scrape_loop_throws:
  "page_rows (ps cp) = None \<Longrightarrow>
   scrape_loop b ps cp n acc = \<lparr>thrown = True, currentPage = cp, clicks = n, allTransactions = acc\<rparr>"
  by (simp add: scrape_loop.simps[of b ps cp n acc])

lemma scrape_loop_no_rows:
  "page_rows (ps cp) = Some [] \<Longrightarrow>
   scrape_loop b ps cp n acc = \<lparr>thrown = False, currentPage = cp, clicks = n, allTransactions = acc\<rparr>"
  by (simp add: scrape_loop.simps[of b ps cp n acc])

lemma scrape_loop_last:
  "page_rows (ps cp) = Some rs \<Longrightarrow> rs \<noteq> [] \<Longrightarrow> page_next (ps cp) \<noteq> Present \<Longrightarrow>
   scrape_loop b ps cp n acc =
     \<lparr>thrown = (page_next (ps cp) \<noteq> Absent), currentPage = cp,
      clicks = (if page_next (ps cp) = ClickRejects then n + 1 else n),
      allTransactions = acc @ process_rows b rs\<rparr>"
  by (cases "page_next (ps cp)") (simp_all add: scrape_loop.simps[of b ps cp n acc])

lemma scrape_loop_cap:
  "page_rows (ps cp) = Some rs \<Longrightarrow> rs \<noteq> [] \<Longrightarrow> page_next (ps cp) = Present \<Longrightarrow> 10 \<le> cp \<Longrightarrow>
   scrape_loop b ps cp n acc =
     \<lparr>thrown = False, currentPage = cp + 1, clicks = n + 1, allTransactions = acc @ process_rows b rs\<rparr>"
  by (simp add: scrape_loop.simps[of b ps cp n acc])

lemma scrape_loop_next:
  "page_rows (ps cp) = Some rs \<Longrightarrow> rs \<noteq> [] \<Longrightarrow> page_next (ps cp) = Present \<Longrightarrow> cp < 10 \<Longrightarrow>
   scrape_loop b ps cp n acc = scrape_loop b ps (cp + 1) (n + 1) (acc @ process_rows b rs)"
  by (simp add: scrape_loop.simps[of b ps cp n acc])

lemma scrape_loop_cases:
  fixes cp :: nat
  obtains (throws) "page_rows (ps cp) = None"
  | (no_rows) "page_rows (ps cp) = Some []"
  | (last) rs where "page_rows (ps cp) = Some rs" "rs \<noteq> []" "page_next (ps cp) \<noteq> Present"
  | (cap) rs where "page_rows (ps cp) = Some rs" "rs \<noteq> []" "page_next (ps cp) = Present" "10 \<le> cp"
  | (advance) rs where "page_rows (ps cp) = Some rs" "rs \<noteq> []" "page_next (ps cp) = Present" "cp < 10"
proof (cases "page_rows (ps cp)")
  case None
  then show ?thesis by (rule throws)
next
  case (Some rs)
  show ?thesis
  proof (cases "rs = []")
    case True
    with Some show ?thesis by (intro no_rows) simp
  next
    case False
    show ?thesis
    proof (cases "page_next (ps cp) = Present")
      case np: False
      from Some False np show ?thesis by (rule last)
    next
      case p: True
      show ?thesis
      proof (cases "cp < 10")
        case True
        from Some False p True show ?thesis by (rule advance)
      next
        case c: False
        then have "10 \<le> cp" by simp
        with Some False p show ?thesis by (intro cap)
      qed
    qed
  qed
qed

lemma scrape_loop_clicks:
  "cp \<le> 10 \<Longrightarrow> clicks (scrape_loop b ps cp n acc) + cp \<le> n + 11"
proof (induction "11 - cp" arbitrary: cp n acc rule: less_induct)
  case less
  show ?case
  proof (cases rule: scrape_loop_cases[of ps cp])
    case throws
    then show ?thesis using less.prems by (simp add: scrape_loop_throws)
  next
    case no_rows
    then show ?thesis using less.prems by (simp add: scrape_loop_no_rows)
  next
    case (last rs)
    then show ?thesis using less.prems by (simp add: scrape_loop_last)
  next
    case (cap rs)
    then show ?thesis using less.prems by (simp add: scrape_loop_cap)
  next
    case (advance rs)
    have lt: "11 - (cp + 1) < 11 - cp" and le: "cp + 1 \<le> 10" using advance(4) by simp_all
    have "clicks (scrape_loop b ps (cp + 1) (n + 1) (acc @ process_rows b rs)) + (cp + 1) \<le> (n + 1) + 11"
      by (rule less.hyps[OF lt le])
    with advance show ?thesis by (simp add: scrape_loop_next)
  qed
qed

lemma scrape_loop_collects:
  "cp \<le> 10 \<Longrightarrow>
   \<exists>k. cp + k \<le> 11 \<and>
     allTransactions (scrape_loop b ps cp n acc) =
       acc @ concat (map (\<lambda>p. process_rows b (rows_of (ps p))) [cp..<cp + k])"
proof (induction "11 - cp" arbitrary: cp n acc rule: less_induct)
  case less
  show ?case
  proof (cases rule: scrape_loop_cases[of ps cp])
    case throws
    then show ?thesis using less.prems by (intro exI[of _ 0]) (simp add: scrape_loop_throws)
  next
    case no_rows
    then show ?thesis using less.prems by (intro exI[of _ 0]) (simp add: scrape_loop_no_rows)
  next
    case (last rs)
    then show ?thesis using less.prems by (intro exI[of _ 1]) (simp add: scrape_loop_last rows_of_def)
  next
    case (cap rs)
    then show ?thesis using less.prems by (intro exI[of _ 1]) (simp add: scrape_loop_cap rows_of_def)
  next
    case (advance rs)
    have lt: "11 - (cp + 1) < 11 - cp" and le: "cp + 1 \<le> 10" using advance(4) by simp_all
    from less.hyps[OF lt le, of "n + 1" "acc @ process_rows b rs"]
    obtain k where k: "cp + 1 + k \<le> 11"
      "allTransactions (scrape_loop b ps (cp + 1) (n + 1) (acc @ process_rows b rs)) =
         (acc @ process_rows b rs) @ concat (map (\<lambda>p. process_rows b (rows_of (ps p))) [cp + 1..<cp + 1 + k])"
      by blast
    have up: "[cp..<cp + (k + 1)] = cp # [cp + 1..<cp + 1 + k]"
      by (simp add: upt_conv_Cons)
    have "allTransactions (scrape_loop b ps cp n acc) =
            acc @ concat (map (\<lambda>p. process_rows b (rows_of (ps p))) [cp..<cp + (k + 1)])"
      unfolding up scrape_loop_next[of ps cp rs b n acc, OF advance] k(2)
      using advance(1) by (simp add: rows_of_def)
    with k(1) show ?thesis by (intro exI[of _ "k + 1"]) simp
  qed
qed

lemma scrape_loop_always_next:
  assumes always: "\<forall>p\<in>{1..10}. \<exists>rs. page_rows (ps p) = Some rs \<and> rs \<noteq> [] \<and> page_next (ps p) = Present"
  shows "1 \<le> cp \<Longrightarrow> cp \<le> 10 \<Longrightarrow>
     scrape_loop b ps cp n acc =
       \<lparr>thrown = False, currentPage = 11, clicks = n + (11 - cp),
        allTransactions = acc @ concat (map (\<lambda>p. process_rows b (rows_of (ps p))) [cp..<11])\<rparr>"
proof (induction "11 - cp" arbitrary: cp n acc rule: less_induct)
  case less
  from always less.prems
  obtain rs where rs: "page_rows (ps cp) = Some rs" "rs \<noteq> []" "page_next (ps cp) = Present"
    by (metis atLeastAtMost_iff)
  show ?case
  proof (cases "cp < 10")
    case False
    with less.prems have cp: "cp = 10" by simp
    have "[10..<11] = [10::nat]" by (simp add: upt_conv_Cons)
    with scrape_loop_cap[of ps cp rs b n acc, OF rs] rs(1) cp show ?thesis
      by (simp add: rows_of_def)
  next
    case True
    have lt: "11 - (cp + 1) < 11 - cp" and le: "cp + 1 \<le> 10" and ge: "1 \<le> cp + 1"
      using True by simp_all
    have up: "[cp..<11] = cp # [cp + 1..<11]" using True by (simp add: upt_conv_Cons)
    show ?thesis
      unfolding scrape_loop_next[of ps cp rs b n acc, OF rs True]
        less.hyps[OF lt ge le, of "n + 1" "acc @ process_rows b rs"] up
      using rs(1) True by (simp add: rows_of_def)
  qed
qed

text \<open>
  C5. The walk makes at most 10 clicks on "Next Page", whatever the pages show, and it returns:
  the loop is a total function. When each of the pages 1 to 10 has rows and a "Next Page" control
  (whatever follows them, also a control on every further page), it makes
  exactly 10 clicks, ends without an exception with \<^verbatim>\<open>currentPage = 11\<close>, and
  \<open>scrapeTransactionList\<close> returns the records of all rows of pages 1 to 10.
\<close>

theorem pagination_stops_at_cap:
  "clicks (scrape_loop b (pages l) 1 0 []) \<le> 10 \<and>
   ((\<forall>p\<in>{1..10}. \<exists>rs. page_rows (pages l p) = Some rs \<and> rs \<noteq> [] \<and> page_next (pages l p) = Present) \<longrightarrow>
      scrape_loop b (pages l) 1 0 [] =
        \<lparr>thrown = False, currentPage = 11, clicks = 10,
         allTransactions = concat (map (\<lambda>p. process_rows b (rows_of (pages l p))) [1..<11])\<rparr> \<and>
      (\<not> prelude_throws l \<longrightarrow>
         scrapeTransactionList b l =
           Inr (concat (map (\<lambda>p. process_rows b (rows_of (pages l p))) [1..<11]))))"
proof (intro conjI impI)
  show "clicks (scrape_loop b (pages l) 1 0 []) \<le> 10"
    using scrape_loop_clicks[of 1 b "pages l" 0 "[]"] by simp
next
  assume a: "\<forall>p\<in>{1..10}. \<exists>rs. page_rows (pages l p) = Some rs \<and> rs \<noteq> [] \<and> page_next (pages l p) = Present"
  show w: "scrape_loop b (pages l) 1 0 [] =
        \<lparr>thrown = False, currentPage = 11, clicks = 10,
         allTransactions = concat (map (\<lambda>p. process_rows b (rows_of (pages l p))) [1..<11])\<rparr>"
    using scrape_loop_always_next[OF a, of 1 b 0 "[]"] by simp
  assume "\<not> prelude_throws l"
  then show "scrapeTransactionList b l =
           Inr (concat (map (\<lambda>p. process_rows b (rows_of (pages l p))) [1..<11]))"
    unfolding scrapeTransactionList_def w by simp
qed

theorem pagination_stops_at_cap_witness:
  "page_next (pages endless_listing 11) = Present \<and>
   \<not> prelude_throws endless_listing \<and>
   clicks (scrape_loop ''https://www.amazon.com'' (pages endless_listing) 1 0 []) = 10 \<and>
   \<not> thrown (scrape_loop ''https://www.amazon.com'' (pages endless_listing) 1 0 []) \<and>
   scrapeTransactionList ''https://www.amazon.com'' endless_listing =
     Inr (concat (map (\<lambda>p. process_rows ''https://www.amazon.com'' (rows_of (pages endless_listing p)))
                   [1..<11]))"
proof -
  have h: "\<forall>p\<in>{1..10}. \<exists>rs. page_rows (pages endless_listing p) = Some rs \<and> rs \<noteq> [] \<and>
             page_next (pages endless_listing p) = Present"
    by (simp add: endless_listing_def endless_page_def)
  have p: "\<not> prelude_throws endless_listing" by (simp add: endless_listing_def)
  have q: "page_next (pages endless_listing 11) = Present"
    by (simp add: endless_listing_def endless_page_def)
  from pagination_stops_at_cap[of "''https://www.amazon.com''" endless_listing] h p q
  show ?thesis by simp
qed

lemma process_rows_length:
  "length (process_rows b rs) = length (filter (\<lambda>r. extractTransactionFromRow b r \<noteq> None) rs)"
  by (simp add: process_rows_def map_filter_def)

lemma process_rows_append:
  "process_rows b (rs @ rs') = process_rows b rs @ process_rows b rs'"
  by (simp add: process_rows_def map_filter_def)

lemma scrape_loop_exact:
  "cp \<le> 10 \<Longrightarrow>
   \<exists>e. cp \<le> e \<and> e \<le> 11 \<and>
     (\<forall>p. cp \<le> p \<and> p < e \<longrightarrow> rows_of (ps p) \<noteq> []) \<and>
     (\<forall>p. cp \<le> p \<and> Suc p < e \<longrightarrow> page_next (ps p) = Present) \<and>
     ((e = 11 \<and> page_next (ps 10) = Present) \<or>
      (cp < e \<and> page_next (ps (e - 1)) \<noteq> Present) \<or>
      (e \<le> 10 \<and> (e = cp \<or> page_next (ps (e - 1)) = Present) \<and> rows_of (ps e) = [])) \<and>
     allTransactions (scrape_loop b ps cp n acc) =
       acc @ concat (map (\<lambda>p. process_rows b (rows_of (ps p))) [cp..<e]) \<and>
     (thrown (scrape_loop b ps cp n acc) \<longleftrightarrow>
        (cp < e \<and> page_next (ps (e - 1)) \<in> {QueryRejects, ClickRejects}) \<or>
        (e \<le> 10 \<and> (e = cp \<or> page_next (ps (e - 1)) = Present) \<and> page_rows (ps e) = None))"
proof (induction "11 - cp" arbitrary: cp n acc rule: less_induct)
  case less
  show ?case
  proof (cases rule: scrape_loop_cases[of ps cp])
    case throws
    then show ?thesis using less.prems
      by (intro exI[of _ cp]) (auto simp: scrape_loop_throws rows_of_def)
  next
    case no_rows
    then show ?thesis using less.prems
      by (intro exI[of _ cp]) (auto simp: scrape_loop_no_rows rows_of_def)
  next
    case (last rs)
    then show ?thesis using less.prems
      by (intro exI[of _ "Suc cp"])
         (cases "page_next (ps cp)"; auto simp: scrape_loop_last rows_of_def le_less_Suc_eq)
  next
    case (cap rs)
    with less.prems have cp: "cp = 10" by simp
    have up: "[10..<11] = [10::nat]" by (simp add: upt_conv_Cons)
    have w: "scrape_loop b ps 10 n acc =
       \<lparr>thrown = False, currentPage = 10 + 1, clicks = n + 1, allTransactions = acc @ process_rows b rs\<rparr>"
      using scrape_loop_cap[of ps cp rs b n acc, OF cap] cp by simp
    have rows10: "rows_of (ps 10) = rs" using cap(1) cp by (simp add: rows_of_def)
    have q1: "\<forall>p. (10::nat) \<le> p \<and> p < 11 \<longrightarrow> rows_of (ps p) \<noteq> []"
    proof (intro allI impI)
      fix p :: nat
      assume "10 \<le> p \<and> p < 11"
      then have "p = 10" by linarith
      then show "rows_of (ps p) \<noteq> []" using rows10 cap(2) by simp
    qed
    have q2: "\<forall>p. (10::nat) \<le> p \<and> Suc p < 11 \<longrightarrow> page_next (ps p) = Present" by auto
    have q3: "page_next (ps 10) = Present" using cap(3) cp by simp
    show ?thesis
      unfolding cp
      using q1 q2 q3 by (intro exI[of _ 11]) (simp add: w up rows10)
  next
    case (advance rs)
    have lt: "11 - (cp + 1) < 11 - cp" and le: "cp + 1 \<le> 10" using advance(4) by simp_all
    let ?w = "scrape_loop b ps (cp + 1) (n + 1) (acc @ process_rows b rs)"
    from less.hyps[OF lt le, of "n + 1" "acc @ process_rows b rs"]
    obtain e where e: "cp + 1 \<le> e" "e \<le> 11"
      "\<forall>p. cp + 1 \<le> p \<and> p < e \<longrightarrow> rows_of (ps p) \<noteq> []"
      "\<forall>p. cp + 1 \<le> p \<and> Suc p < e \<longrightarrow> page_next (ps p) = Present"
      "(e = 11 \<and> page_next (ps 10) = Present) \<or>
       (cp + 1 < e \<and> page_next (ps (e - 1)) \<noteq> Present) \<or>
       (e \<le> 10 \<and> (e = cp + 1 \<or> page_next (ps (e - 1)) = Present) \<and> rows_of (ps e) = [])"
      "allTransactions ?w =
         (acc @ process_rows b rs) @ concat (map (\<lambda>p. process_rows b (rows_of (ps p))) [cp + 1..<e])"
      "thrown ?w \<longleftrightarrow>
        (cp + 1 < e \<and> page_next (ps (e - 1)) \<in> {QueryRejects, ClickRejects}) \<or>
        (e \<le> 10 \<and> (e = cp + 1 \<or> page_next (ps (e - 1)) = Present) \<and> page_rows (ps e) = None)"
      by blast
    have step: "scrape_loop b ps cp n acc = ?w"
      by (rule scrape_loop_next[of ps cp rs b n acc, OF advance])
    have rows_cp: "rows_of (ps cp) = rs" using advance(1) by (simp add: rows_of_def)
    have up: "[cp..<e] = cp # [cp + 1..<e]" using e(1) by (simp add: upt_conv_Cons)
    have c1: "cp \<le> e" using e(1) by simp
    have c3: "\<forall>p. cp \<le> p \<and> p < e \<longrightarrow> rows_of (ps p) \<noteq> []"
    proof (intro allI impI)
      fix p assume "cp \<le> p \<and> p < e"
      then consider "p = cp" | "cp + 1 \<le> p \<and> p < e" by linarith
      then show "rows_of (ps p) \<noteq> []" using rows_cp advance(2) e(3) by cases auto
    qed
    have c4: "\<forall>p. cp \<le> p \<and> Suc p < e \<longrightarrow> page_next (ps p) = Present"
    proof (intro allI impI)
      fix p assume "cp \<le> p \<and> Suc p < e"
      then consider "p = cp" | "cp + 1 \<le> p \<and> Suc p < e" by linarith
      then show "page_next (ps p) = Present" using advance(3) e(4) by cases auto
    qed
    have last_is_cp: "e = cp + 1 \<Longrightarrow> page_next (ps (e - 1)) = Present"
      using advance(3) by simp
    have c5: "(e = 11 \<and> page_next (ps 10) = Present) \<or>
      (cp < e \<and> page_next (ps (e - 1)) \<noteq> Present) \<or>
      (e \<le> 10 \<and> (e = cp \<or> page_next (ps (e - 1)) = Present) \<and> rows_of (ps e) = [])"
      using e(5) last_is_cp by auto
    have c6: "allTransactions (scrape_loop b ps cp n acc) =
       acc @ concat (map (\<lambda>p. process_rows b (rows_of (ps p))) [cp..<e])"
      unfolding step e(6) up by (simp add: rows_cp)
    have c7: "thrown (scrape_loop b ps cp n acc) \<longleftrightarrow>
        (cp < e \<and> page_next (ps (e - 1)) \<in> {QueryRejects, ClickRejects}) \<or>
        (e \<le> 10 \<and> (e = cp \<or> page_next (ps (e - 1)) = Present) \<and> page_rows (ps e) = None)"
    proof (cases "e = cp + 1")
      case True
      with advance(3) have "page_next (ps (e - 1)) = Present" by simp
      with True show ?thesis unfolding step e(7) by simp
    next
      case False
      with e(1) have "cp + 1 < e" "cp < e" "e \<noteq> cp" by simp_all
      then show ?thesis unfolding step e(7) using False by simp
    qed
    from c1 e(2) c3 c4 c5 c6 c7 show ?thesis by (intro exI[of _ e]) blast
  qed
qed

lemma process_rows_each:
  "process_rows b rs =
     concat (map (\<lambda>r. case extractTransactionFromRow b r of None \<Rightarrow> [] | Some t \<Rightarrow> [t]) rs)"
  by (induction rs) (auto simp: process_rows_def map_filter_def split: option.splits)

lemma orderID_at_nonempty: "orderID_at s = Some g \<Longrightarrow> g \<noteq> []"
  by (auto simp: orderID_at_def Let_def split: if_splits)

lemma search_orderID_nonempty: "search orderID_at s = Some g \<Longrightarrow> g \<noteq> []"
  by (induction s) (auto simp: orderID_at_nonempty split: option.splits)

lemma orderShape_at_nonempty: "orderShape_at s = Some g \<Longrightarrow> g \<noteq> []"
  by (cases s) (auto simp: orderShape_at_def startsWith_def split: if_splits)

lemma search_orderShape_nonempty: "search orderShape_at s = Some g \<Longrightarrow> g \<noteq> []"
  by (induction s) (auto simp: orderShape_at_nonempty split: option.splits)

lemma search_orderShape_Nil: "orderShape_at [] = None"
  by (simp add: orderShape_at_def startsWith_def)

lemma search_orderID_Nil: "orderID_at [] = None"
  by (simp add: orderID_at_def startsWith_def)

lemma extract_linked_id:
  assumes "\<not> row_throws r" and "linked_orderId r = Some g"
  shows "\<exists>t. extractTransactionFromRow b r = Some t \<and> bt_orderId t = g"
proof -
  from assms(2) obtain h where
    h: "find (\<lambda>h. str_includes h ''order'' \<or> str_includes h ''gp/your-account'') (anchors r) = Some h"
       "search orderID_at h = Some g"
    by (auto simp: linked_orderId_def split: option.splits)
  have g: "g \<noteq> []" using h(2) by (rule search_orderID_nonempty)
  show ?thesis
    using assms(1) h g by (simp add: extractTransactionFromRow_def Let_def)
qed

lemma extract_none_iff:
  "extractTransactionFromRow b r = None \<longleftrightarrow>
     row_throws r \<or> (linked_orderId r = None \<and> text_orderId r = None \<and> \<not> js_pos (row_amount r))"
proof (cases "row_throws r")
  case True
  then show ?thesis by (simp add: extractTransactionFromRow_def)
next
  case False
  let ?href = "case find (\<lambda>h. str_includes h ''order'' \<or> str_includes h ''gp/your-account'') (anchors r) of
                 None \<Rightarrow> [] | Some h \<Rightarrow> h"
  let ?txt = "case rowText r of None \<Rightarrow> [] | Some t \<Rightarrow> t"
  have l: "linked_orderId r = search orderID_at ?href"
    by (simp add: linked_orderId_def search_orderID_Nil split: option.splits)
  have t: "text_orderId r = search orderShape_at ?txt"
    by (simp add: text_orderId_def search_orderShape_Nil split: option.splits)
  have a: "row_amount r = (if ?txt = [] then Num 0
                     else case search amount_at ?txt of
                            None \<Rightarrow> Num 0
                          | Some g \<Rightarrow> parseFloat (replace_comma g))"
    by (simp add: row_amount_def split: option.splits)
  show ?thesis
    unfolding l t a using False
    by (auto simp: extractTransactionFromRow_def Let_def search_orderShape_Nil search_orderID_Nil
          dest: search_orderID_nonempty search_orderShape_nonempty split: option.splits if_splits)
qed

lemma process_rows_linked_ids:
  "\<forall>r \<in> set rs. \<not> row_throws r \<and> linked_orderId r = Some (f r) \<Longrightarrow>
   map bt_orderId (process_rows b rs) = map f rs"
proof (induction rs)
  case Nil
  then show ?case by (simp add: process_rows_each)
next
  case (Cons r rs)
  then obtain t where "extractTransactionFromRow b r = Some t" "bt_orderId t = f r"
    using extract_linked_id[of r "f r" b] by auto
  with Cons show ?case by (simp add: process_rows_each)
qed

text \<open>
  C9, as stated, fails: two rows of one page that link to the same order give two references
  with the same id.
\<close>

theorem pager_duplicate_id_counterexample:
  "scrapeTransactionList ''https://www.amazon.com'' two_charges_listing =
     Inr [\<lparr>bt_orderId = ''113-1234567-1234567'', bt_date = [], bt_total = Num 25,
           bt_orderDetailsUrl =
             Some ''https://www.amazon.com/gp/css/summary/edit.html?orderID=113-1234567-1234567''\<rparr>,
          \<lparr>bt_orderId = ''113-1234567-1234567'', bt_date = [], bt_total = Num (1749 / 100),
           bt_orderDetailsUrl =
             Some ''https://www.amazon.com/gp/css/summary/edit.html?orderID=113-1234567-1234567''\<rparr>]"
  by code_simp

text \<open>
  C9, amended. The pager does not deduplicate. It processes the pages 1 to \<open>k\<close>, where \<open>k \<le> 10\<close>
  is fixed by the listing: each of these pages has rows, each but the last has a "Next Page"
  control, and the walk ends after page \<open>k\<close> because ten pages were processed, or page \<open>k\<close> has
  no working control, or the page after it shows no rows. Unless an exception left the loop
  (then the result is the empty list, or the exception) \<open>scrapeTransactionList\<close> returns, page
  after page and row after row, the reference of every row for which
  \<open>extractTransactionFromRow\<close> returns one; it returns none only when a call on the row rejects
  or neither an id nor a positive amount is found. Rows whose order links carry an id yield
  references with these ids, one for each row, also when ids repeat.
\<close>

theorem pager_keeps_every_row:
  "(\<exists>k\<le>10.
      (\<forall>p\<in>{1..k}. rows_of (pages l p) \<noteq> []) \<and>
      (\<forall>p\<in>{1..<k}. page_next (pages l p) = Present) \<and>
      ((k = 10 \<and> page_next (pages l 10) = Present) \<or>
       (1 \<le> k \<and> page_next (pages l k) \<noteq> Present) \<or>
       (k < 10 \<and> (k = 0 \<or> page_next (pages l k) = Present) \<and> rows_of (pages l (k + 1)) = [])) \<and>
      allTransactions (scrape_loop b (pages l) 1 0 []) =
        concat (map (\<lambda>p. process_rows b (rows_of (pages l p))) [1..<k + 1]) \<and>
      scrapeTransactionList b l =
        (if prelude_throws l \<or>
            (1 \<le> k \<and> page_next (pages l k) \<in> {QueryRejects, ClickRejects}) \<or>
            (k < 10 \<and> (k = 0 \<or> page_next (pages l k) = Present) \<and> page_rows (pages l (k + 1)) = None)
         then (if debug_throws l then Inl ScrapeError else Inr [])
         else Inr (concat (map (\<lambda>p. process_rows b (rows_of (pages l p))) [1..<k + 1])))) \<and>
   process_rows b rs =
     concat (map (\<lambda>r. case extractTransactionFromRow b r of None \<Rightarrow> [] | Some t \<Rightarrow> [t]) rs) \<and>
   (extractTransactionFromRow b r = None \<longleftrightarrow>
      row_throws r \<or> (linked_orderId r = None \<and> text_orderId r = None \<and> \<not> js_pos (row_amount r))) \<and>
   ((\<forall>r \<in> set rs. \<not> row_throws r \<and> linked_orderId r = Some (f r)) \<longrightarrow>
      map bt_orderId (process_rows b rs) = map f rs)"
proof (intro conjI impI)
  let ?w = "scrape_loop b (pages l) 1 0 []"
  let ?out = "\<lambda>k. concat (map (\<lambda>p. process_rows b (rows_of (pages l p))) [1..<k + 1])"
  from scrape_loop_exact[of 1 "pages l" b 0 "[]"]
  obtain e where e: "1 \<le> e" "e \<le> 11"
    "\<forall>p. 1 \<le> p \<and> p < e \<longrightarrow> rows_of (pages l p) \<noteq> []"
    "\<forall>p. 1 \<le> p \<and> Suc p < e \<longrightarrow> page_next (pages l p) = Present"
    "(e = 11 \<and> page_next (pages l 10) = Present) \<or>
     (1 < e \<and> page_next (pages l (e - 1)) \<noteq> Present) \<or>
     (e \<le> 10 \<and> (e = 1 \<or> page_next (pages l (e - 1)) = Present) \<and> rows_of (pages l e) = [])"
    "allTransactions ?w = [] @ concat (map (\<lambda>p. process_rows b (rows_of (pages l p))) [1..<e])"
    "thrown ?w \<longleftrightarrow>
        (1 < e \<and> page_next (pages l (e - 1)) \<in> {QueryRejects, ClickRejects}) \<or>
        (e \<le> 10 \<and> (e = 1 \<or> page_next (pages l (e - 1)) = Present) \<and> page_rows (pages l e) = None)"
    by auto
  define k where "k = e - 1"
  have ek: "e = k + 1" using e(1) by (simp add: k_def)
  have k10: "k \<le> 10" using e(2) ek by simp
  have a1: "\<forall>p\<in>{1..k}. rows_of (pages l p) \<noteq> []" using e(3) ek by auto
  have a2: "\<forall>p\<in>{1..<k}. page_next (pages l p) = Present" using e(4) ek by auto
  have a3: "(k = 10 \<and> page_next (pages l 10) = Present) \<or>
       (1 \<le> k \<and> page_next (pages l k) \<noteq> Present) \<or>
       (k < 10 \<and> (k = 0 \<or> page_next (pages l k) = Present) \<and> rows_of (pages l (k + 1)) = [])"
    using e(5) unfolding ek by auto
  have a4: "allTransactions ?w = ?out k" using e(6) unfolding ek by simp
  have a5: "thrown ?w \<longleftrightarrow>
            (1 \<le> k \<and> page_next (pages l k) \<in> {QueryRejects, ClickRejects}) \<or>
            (k < 10 \<and> (k = 0 \<or> page_next (pages l k) = Present) \<and> page_rows (pages l (k + 1)) = None)"
    using e(7) unfolding ek by auto
  have a6: "scrapeTransactionList b l =
        (if prelude_throws l \<or>
            (1 \<le> k \<and> page_next (pages l k) \<in> {QueryRejects, ClickRejects}) \<or>
            (k < 10 \<and> (k = 0 \<or> page_next (pages l k) = Present) \<and> page_rows (pages l (k + 1)) = None)
         then (if debug_throws l then Inl ScrapeError else Inr [])
         else Inr (?out k))"
    unfolding scrapeTransactionList_def Let_def a5 a4 by simp
  from k10 a1 a2 a3 a4 a6
  show "\<exists>k\<le>10.
      (\<forall>p\<in>{1..k}. rows_of (pages l p) \<noteq> []) \<and>
      (\<forall>p\<in>{1..<k}. page_next (pages l p) = Present) \<and>
      ((k = 10 \<and> page_next (pages l 10) = Present) \<or>
       (1 \<le> k \<and> page_next (pages l k) \<noteq> Present) \<or>
       (k < 10 \<and> (k = 0 \<or> page_next (pages l k) = Present) \<and> rows_of (pages l (k + 1)) = [])) \<and>
      allTransactions (scrape_loop b (pages l) 1 0 []) =
        concat (map (\<lambda>p. process_rows b (rows_of (pages l p))) [1..<k + 1]) \<and>
      scrapeTransactionList b l =
        (if prelude_throws l \<or>
            (1 \<le> k \<and> page_next (pages l k) \<in> {QueryRejects, ClickRejects}) \<or>
            (k < 10 \<and> (k = 0 \<or> page_next (pages l k) = Present) \<and> page_rows (pages l (k + 1)) = None)
         then (if debug_throws l then Inl ScrapeError else Inr [])
         else Inr (concat (map (\<lambda>p. process_rows b (rows_of (pages l p))) [1..<k + 1])))"
    by (intro exI[of _ k]) blast
  show "process_rows b rs =
     concat (map (\<lambda>r. case extractTransactionFromRow b r of None \<Rightarrow> [] | Some t \<Rightarrow> [t]) rs)"
    by (rule process_rows_each)
  show "extractTransactionFromRow b r = None \<longleftrightarrow>
      row_throws r \<or> (linked_orderId r = None \<and> text_orderId r = None \<and> \<not> js_pos (row_amount r))"
    by (rule extract_none_iff)
next
  assume "\<forall>r \<in> set rs. \<not> row_throws r \<and> linked_orderId r = Some (f r)"
  then show "map bt_orderId (process_rows b rs) = map f rs"
    by (rule process_rows_linked_ids)
qed

lemma charge_row_linked:
  "\<not> row_throws (charge_row ''113-1234567-1234567'' a) \<and>
   linked_orderId (charge_row ''113-1234567-1234567'' a) = Some ''113-1234567-1234567''"
  by (simp add: charge_row_def linked_orderId_def startsWith_def orderID_at_def)

theorem pager_keeps_every_row_witness:
  "scrapeTransactionList ''https://www.amazon.com'' two_charges_listing =
     Inr (process_rows ''https://www.amazon.com''
            [charge_row ''113-1234567-1234567'' ''25.00'', charge_row ''113-1234567-1234567'' ''17.49'']) \<and>
   map bt_orderId (process_rows ''https://www.amazon.com''
            [charge_row ''113-1234567-1234567'' ''25.00'', charge_row ''113-1234567-1234567'' ''17.49''])
     = [''113-1234567-1234567'', ''113-1234567-1234567'']"
proof -
  let ?b = "''https://www.amazon.com''"
  let ?rs = "[charge_row ''113-1234567-1234567'' ''25.00'', charge_row ''113-1234567-1234567'' ''17.49'']"
  let ?P = "\<lambda>k. (\<forall>p\<in>{1..k}. rows_of (pages two_charges_listing p) \<noteq> []) \<and>
      (\<forall>p\<in>{1..<k}. page_next (pages two_charges_listing p) = Present) \<and>
      ((k = 10 \<and> page_next (pages two_charges_listing 10) = Present) \<or>
       (1 \<le> k \<and> page_next (pages two_charges_listing k) \<noteq> Present) \<or>
       (k < 10 \<and> (k = 0 \<or> page_next (pages two_charges_listing k) = Present) \<and>
          rows_of (pages two_charges_listing (k + 1)) = [])) \<and>
      allTransactions (scrape_loop ?b (pages two_charges_listing) 1 0 []) =
        concat (map (\<lambda>p. process_rows ?b (rows_of (pages two_charges_listing p))) [1..<k + 1]) \<and>
      scrapeTransactionList ?b two_charges_listing =
        (if prelude_throws two_charges_listing \<or>
            (1 \<le> k \<and> page_next (pages two_charges_listing k) \<in> {QueryRejects, ClickRejects}) \<or>
            (k < 10 \<and> (k = 0 \<or> page_next (pages two_charges_listing k) = Present) \<and>
               page_rows (pages two_charges_listing (k + 1)) = None)
         then (if debug_throws two_charges_listing then Inl ScrapeError else Inr [])
         else Inr (concat (map (\<lambda>p. process_rows ?b (rows_of (pages two_charges_listing p))) [1..<k + 1])))"
  note inst = pager_keeps_every_row[of two_charges_listing ?b ?rs _ "\<lambda>r. ''113-1234567-1234567''"]
  from inst obtain k where k: "k \<le> 10" "?P k" by blast
  have rows: "\<And>p. rows_of (pages two_charges_listing p) = (if p = 1 then ?rs else [])"
    by (simp add: two_charges_listing_def two_charges_page_def rows_of_def)
  have nxt: "\<And>p. page_next (pages two_charges_listing p) = Absent"
    by (simp add: two_charges_listing_def two_charges_page_def)
  have pre: "\<not> prelude_throws two_charges_listing" by (simp add: two_charges_listing_def)
  have le1: "k \<le> 1"
  proof (rule ccontr)
    assume "\<not> k \<le> 1"
    then have "2 \<in> {1..k}" by simp
    with k(2) have "rows_of (pages two_charges_listing 2) \<noteq> []" by blast
    then show False by (simp add: rows)
  qed
  have ge1: "1 \<le> k"
  proof (rule ccontr)
    assume "\<not> 1 \<le> k"
    then have "k = 0" by simp
    with k(2) have "rows_of (pages two_charges_listing (0 + 1)) = []" by auto
    then show False by (simp add: rows)
  qed
  from le1 ge1 have k1: "k = 1" by simp
  have "scrapeTransactionList ?b two_charges_listing =
          Inr (concat (map (\<lambda>p. process_rows ?b (rows_of (pages two_charges_listing p))) [1..<1 + 1]))"
    using k(2) unfolding k1 by (simp add: nxt pre)
  then have r1: "scrapeTransactionList ?b two_charges_listing = Inr (process_rows ?b ?rs)"
    by (simp add: rows)
  have "\<forall>r \<in> set ?rs. \<not> row_throws r \<and> linked_orderId r = Some ''113-1234567-1234567''"
    using charge_row_linked by simp
  with inst have r2: "map bt_orderId (process_rows ?b ?rs) = map (\<lambda>r. ''113-1234567-1234567'') ?rs"
    by blast
  from r1 r2 show ?thesis by simp
qed

section \<open>Amounts with thousands separators\<close>

lemma replace_comma_first:
  "CHR '','' \<notin> set a \<Longrightarrow> replace_comma (a @ CHR '','' # b) = a @ b"
  by (induction a) (simp_all add: replace_comma_def)

text \<open>
  C10. The amount of a row is not the value of the matched text once the text has two or more
  thousands separators: \<^verbatim>\<open>replace(',', '')\<close> removes the first comma only, and \<open>parseFloat\<close> stops
  at the second. For \<open>$1,234,567.89\<close> the pattern matches \<open>1,234,567.89\<close>, the string parsed is
  \<open>1234,567.89\<close>, and the amount is 1234. The price of an item is read the same way.
\<close>

theorem amount_cut_at_second_separator:
  "search amount_at ''Visa ****1234 -$1,234,567.89 Order #113-1234567-1234567'' = Some ''1,234,567.89'' \<and>
   replace_comma ''1,234,567.89'' = ''1234,567.89'' \<and>
   parseFloat ''1234,567.89'' = Num 1234 \<and>
   extractTransactionFromRow ''https://www.amazon.com''
       (charge_row ''113-1234567-1234567'' ''1,234,567.89'') =
     Some \<lparr>bt_orderId = ''113-1234567-1234567'', bt_date = [], bt_total = Num 1234,
           bt_orderDetailsUrl =
             Some ''https://www.amazon.com/gp/css/summary/edit.html?orderID=113-1234567-1234567''\<rparr> \<and>
   map_option item_price (extractItemDetailsWithElement big_item) = Some (Num 1234)"
  by code_simp

theorem amount_cut_at_second_separator_witness:
  "map_option bt_total
     (extractTransactionFromRow ''https://www.amazon.com''
        (charge_row ''113-1234567-1234567'' ''1,234,567.89'')) = Some (Num 1234) \<and>
   Num 1234 \<noteq> Num (123456789 / 100)"
  using amount_cut_at_second_separator by simp

lemma amount_one_separator:
  "map_option bt_total (extractTransactionFromRow ''https://www.amazon.com''
       (charge_row ''113-1234567-1234567'' ''1,234.56'')) = Some (Num (123456 / 100))"
  by code_simp

section \<open>The artifact cache\<close>

lemma takeSmart_capture_log:
  "capture_log (snd (takeSmartOrderScreenshot pg p st)) = capture_log st @ [p]"
  by (simp add: takeSmartOrderScreenshot_def Let_def)

lemma takeSmart_files:
  "\<not> (primary_shot_throws pg \<and> fallback_shot_throws pg) \<Longrightarrow>
   files (snd (takeSmartOrderScreenshot pg p st)) = insert p (files st)"
  by (auto simp: takeSmartOrderScreenshot_def Let_def)

lemma scrape_skips_capture:
  "screenshotPath_of dir t \<in> files st \<Longrightarrow>
   capture_log (snd (scrapeOrderDetailsWithPage dir t pg st)) = capture_log st \<and>
   files (snd (scrapeOrderDetailsWithPage dir t pg st)) = files st"
  by (simp add: scrape_state Let_def)

lemma scrape_capture_once:
  "length (capture_log (snd (scrapeOrderDetailsWithPage dir t pg st))) \<le> length (capture_log st) + 1"
  by (simp add: scrape_state Let_def takeSmart_capture_log)

lemma scrape_capture_makes_file:
  assumes "\<not> (primary_shot_throws pg \<and> fallback_shot_throws pg)"
  shows "capture_log (snd (scrapeOrderDetailsWithPage dir t pg st)) = capture_log st \<or>
         screenshotPath_of dir t \<in> files (snd (scrapeOrderDetailsWithPage dir t pg st))"
  using assms by (simp add: scrape_state Let_def takeSmart_files)

lemma screenshotPath_nonempty: "screenshotPath_of dir t \<noteq> []"
  by (simp add: screenshotPath_of_def path_join_def)

lemma scrape_references_path:
  assumes "screenshotPath_of dir t \<in> files st"
    and "\<not> (opt_str (bt_orderDetailsUrl t) \<noteq> [] \<and> goto_throws pg)"
    and "\<not> (bt_date t = [] \<and> body_text_throws pg)"
  shows "fst (scrapeOrderDetailsWithPage dir t pg st) ''orderScreenshot'' = Some (JStr (screenshotPath_of dir t))"
proof -
  have "(job_fields t d (screenshotPath_of dir t) ++ obj_of_details od) ''orderScreenshot''
          = Some (JStr (screenshotPath_of dir t))" for d od
    by (simp add: job_fields_def obj_of_details_def map_add_def Let_def split: option.splits)
  then have "createTransaction (job_fields t d (screenshotPath_of dir t) ++ obj_of_details od) ''orderScreenshot''
          = Some (JStr (screenshotPath_of dir t))" for d od
    by (simp add: createTransaction_def js_or_def truthy_def screenshotPath_nonempty)
  with assms show ?thesis
    by (auto simp: scrapeOrderDetailsWithPage_def Let_def split_beta)
qed

text \<open>
  C6. When the file \<^verbatim>\<open>order-<id>.png\<close> already exists, \<open>scrapeOrderDetailsWithPage\<close> does not call
  \<open>takeSmartOrderScreenshot\<close> and leaves the files as they are, whatever the page does; unless
  navigation or reading the body text rejects, the record it returns has that path as its
  \<open>orderScreenshot\<close>. So two jobs for the same reference, one after the other, call
  \<open>takeSmartOrderScreenshot\<close> at most once between them, provided the capture of the first
  job, if it is made, does not fail.
\<close>

theorem capture_is_idempotent:
  "(screenshotPath_of dir t \<in> files st \<longrightarrow>
      capture_log (snd (scrapeOrderDetailsWithPage dir t pg st)) = capture_log st \<and>
      files (snd (scrapeOrderDetailsWithPage dir t pg st)) = files st \<and>
      (\<not> (opt_str (bt_orderDetailsUrl t) \<noteq> [] \<and> goto_throws pg) \<and>
       \<not> (bt_date t = [] \<and> body_text_throws pg) \<longrightarrow>
         fst (scrapeOrderDetailsWithPage dir t pg st) ''orderScreenshot''
           = Some (JStr (screenshotPath_of dir t)))) \<and>
   (\<not> (primary_shot_throws pg1 \<and> fallback_shot_throws pg1) \<longrightarrow>
      length (capture_log (snd (scrapeOrderDetailsWithPage dir t pg2
                 (snd (scrapeOrderDetailsWithPage dir t pg1 st0)))))
        \<le> length (capture_log st0) + 1)"
proof (intro conjI impI)
  assume f: "screenshotPath_of dir t \<in> files st"
  show "capture_log (snd (scrapeOrderDetailsWithPage dir t pg st)) = capture_log st"
    using scrape_skips_capture[OF f] by simp
  show "files (snd (scrapeOrderDetailsWithPage dir t pg st)) = files st"
    using scrape_skips_capture[OF f] by simp
  assume "\<not> (opt_str (bt_orderDetailsUrl t) \<noteq> [] \<and> goto_throws pg) \<and>
       \<not> (bt_date t = [] \<and> body_text_throws pg)"
  then show "fst (scrapeOrderDetailsWithPage dir t pg st) ''orderScreenshot''
           = Some (JStr (screenshotPath_of dir t))"
    using scrape_references_path[OF f] by blast
next
  assume ok: "\<not> (primary_shot_throws pg1 \<and> fallback_shot_throws pg1)"
  let ?st1 = "snd (scrapeOrderDetailsWithPage dir t pg1 st0)"
  let ?st2 = "snd (scrapeOrderDetailsWithPage dir t pg2 ?st1)"
  from scrape_capture_makes_file[OF ok, of dir t st0]
  show "length (capture_log ?st2) \<le> length (capture_log st0) + 1"
  proof
    assume "capture_log ?st1 = capture_log st0"
    with scrape_capture_once[of dir t pg2 ?st1] show ?thesis by simp
  next
    assume "screenshotPath_of dir t \<in> files ?st1"
    then have "capture_log ?st2 = capture_log ?st1"
      using scrape_skips_capture[of dir t ?st1 pg2] by simp
    with scrape_capture_once[of dir t pg1 st0] show ?thesis by simp
  qed
qed

theorem capture_is_idempotent_witness:
  "screenshotPath_of ''screenshots'' (record_ref ''222-2222222-2222222'' 20) \<in> files resumed_state \<and>
   \<not> (opt_str (bt_orderDetailsUrl (record_ref ''222-2222222-2222222'' 20)) \<noteq> [] \<and> goto_throws plain_page) \<and>
   \<not> (bt_date (record_ref ''222-2222222-2222222'' 20) = [] \<and> body_text_throws plain_page) \<and>
   \<not> (primary_shot_throws plain_page \<and> fallback_shot_throws plain_page) \<and>
   capture_log (snd (scrapeOrderDetailsWithPage ''screenshots'' (record_ref ''222-2222222-2222222'' 20)
                       plain_page resumed_state)) = [] \<and>
   fst (scrapeOrderDetailsWithPage ''screenshots'' (record_ref ''222-2222222-2222222'' 20)
          plain_page resumed_state) ''orderScreenshot''
     = Some (JStr ''screenshots/order-222-2222222-2222222.png'') \<and>
   length (capture_log (snd (scrapeOrderDetailsWithPage ''screenshots'' (record_ref ''222-2222222-2222222'' 20)
              plain_page
              (snd (scrapeOrderDetailsWithPage ''screenshots'' (record_ref ''222-2222222-2222222'' 20)
                      plain_page (start_state {}))))))
     \<le> 1"
proof -
  have p: "screenshotPath_of ''screenshots'' (record_ref ''222-2222222-2222222'' 20)
             = ''screenshots/order-222-2222222-2222222.png''"
    by (simp add: screenshotPath_of_def path_join_def record_ref_def)
  have h1: "screenshotPath_of ''screenshots'' (record_ref ''222-2222222-2222222'' 20) \<in> files resumed_state"
    by (simp add: p resumed_state_def)
  have h2: "\<not> (opt_str (bt_orderDetailsUrl (record_ref ''222-2222222-2222222'' 20)) \<noteq> [] \<and> goto_throws plain_page)"
    by (simp add: plain_page_def)
  have h3: "\<not> (bt_date (record_ref ''222-2222222-2222222'' 20) = [] \<and> body_text_throws plain_page)"
    by (simp add: plain_page_def)
  have h4: "\<not> (primary_shot_throws plain_page \<and> fallback_shot_throws plain_page)"
    by (simp add: plain_page_def)
  have c: "capture_log resumed_state = []" "capture_log (start_state {}) = []"
    by (simp_all add: resumed_state_def start_state_def)
  from capture_is_idempotent[of "''screenshots''" "record_ref ''222-2222222-2222222'' 20"
         resumed_state plain_page plain_page plain_page "start_state {}"] h1 h2 h3 h4 c p
  show ?thesis by simp
qed

section \<open>The refund amount\<close>

lemma refund_loop_skip:
  "\<forall>(e, q) \<in> set before. trim (textContent e) \<noteq> ''Refund Total'' \<Longrightarrow>
   refund_loop (before @ rest) r = refund_loop rest r"
  by (induction before) auto

lemma refund_loop_no_label:
  "\<forall>(e, q) \<in> set els. trim (textContent e) \<noteq> ''Refund Total'' \<Longrightarrow> refund_loop els r = r"
  using refund_loop_skip[of els "[]" r] by simp

lemma refund_at_other: "c \<noteq> CHR ''$'' \<Longrightarrow> refund_at (c # s) = None"
  by (simp add: refund_at_def split: list.splits)

lemma num_group_12_50:
  "post = [] \<or> \<not> isDigit (hd post) \<Longrightarrow> num_group (''12.50'' @ post) = ''12.50''"
  by (cases post) (auto simp: num_group_def isCommaDigit_def isDigit_def Let_def)

lemma search_refund_12_50:
  "CHR ''$'' \<notin> set pre \<Longrightarrow> post = [] \<or> \<not> isDigit (hd post) \<Longrightarrow>
   search refund_at (pre @ ''$12.50'' @ post) = Some ''12.50''"
proof (induction pre)
  case Nil
  have "refund_at (''$12.50'' @ post) = Some (num_group (''12.50'' @ post))"
    by (simp add: refund_at_def isCommaDigit_def isDigit_def)
  with num_group_12_50[OF Nil(2)] show ?case by simp
next
  case (Cons c pre)
  from Cons.prems have "c \<noteq> CHR ''$''" by auto
  then have "refund_at (c # pre @ ''$12.50'' @ post) = None" by (rule refund_at_other)
  with Cons show ?case by simp
qed

lemma parse_12_50: "parseFloat (replace_comma ''12.50'') = Num (25 / 2)"
  by code_simp

lemma od_refund_extract:
  "fails_at d \<notin> {Some AtAddress, Some AtPayment, Some AtRefund} \<Longrightarrow>
   od_refund (extractOrderDetailsWithPage d) = refund_loop (span_div_td (body d)) (Num 0)"
  by (simp add: extractOrderDetailsWithPage_def Let_def emptyOrderDetails_def)

text \<open>
  C7, as stated, fails. In the first document the row that holds the label also holds the
  subtotal before it: the text contains \<open>Refund Total\<close> followed by \<open>$12.50\<close>, the first currency
  pattern in the text of the label's parent is \<open>$40.00\<close>, and the refund resolves to 40. In the
  second no element has the label as its whole text, and the refund stays 0.
\<close>

theorem refund_not_12_50_counterexample:
  "textContent crowded_body = ''Item(s) Subtotal: $40.00Refund Total$12.50'' \<and>
   od_refund (extractOrderDetailsWithPage (doc_of_body crowded_body)) = Num 40 \<and>
   textContent inline_body = ''Refund Total: $12.50'' \<and>
   od_refund (extractOrderDetailsWithPage (doc_of_body inline_body)) = Num 0"
  by code_simp

text \<open>
  C7, amended. Let the calls on the page not reject before the refund is read. Among the
  \<^verbatim>\<open>span\<close>, \<^verbatim>\<open>div\<close> and \<^verbatim>\<open>td\<close> elements in document order, when none has the label
  \<open>Refund Total\<close> as its trimmed text the refund is 0, whatever the text of the document
  contains. When the first one that has it has a parent whose full text is some text without
  \<open>$\<close>, then \<open>$12.50\<close>, then nothing or something that does not start with a digit, the refund is
  12.50: the parent's text is searched first and its first match wins.
\<close>

theorem refund_from_label_parent:
  "fails_at d \<notin> {Some AtAddress, Some AtPayment, Some AtRefund} \<longrightarrow>
     ((\<forall>(e, q) \<in> set (span_div_td (body d)). trim (textContent e) \<noteq> ''Refund Total'') \<longrightarrow>
        od_refund (extractOrderDetailsWithPage d) = Num 0) \<and>
     (span_div_td (body d) = before @ (el, parent) # rest \<and>
      (\<forall>(e, q) \<in> set before. trim (textContent e) \<noteq> ''Refund Total'') \<and>
      trim (textContent el) = ''Refund Total'' \<and>
      textContent parent = pre @ ''$12.50'' @ post \<and>
      CHR ''$'' \<notin> set pre \<and> (post = [] \<or> \<not> isDigit (hd post)) \<longrightarrow>
        od_refund (extractOrderDetailsWithPage d) = Num (25 / 2))"
proof (intro impI conjI)
  assume ok: "fails_at d \<notin> {Some AtAddress, Some AtPayment, Some AtRefund}"
  {
    assume "\<forall>(e, q) \<in> set (span_div_td (body d)). trim (textContent e) \<noteq> ''Refund Total''"
    then show "od_refund (extractOrderDetailsWithPage d) = Num 0"
      by (simp add: od_refund_extract[OF ok] refund_loop_no_label)
  }
  {
    assume a: "span_div_td (body d) = before @ (el, parent) # rest \<and>
      (\<forall>(e, q) \<in> set before. trim (textContent e) \<noteq> ''Refund Total'') \<and>
      trim (textContent el) = ''Refund Total'' \<and>
      textContent parent = pre @ ''$12.50'' @ post \<and>
      CHR ''$'' \<notin> set pre \<and> (post = [] \<or> \<not> isDigit (hd post))"
    then have s: "search refund_at (textContent parent) = Some ''12.50''"
      using search_refund_12_50[of pre post] by simp
    have "refund_loop (before @ (el, parent) # rest) (Num 0) = refund_loop ((el, parent) # rest) (Num 0)"
      using a by (intro refund_loop_skip) blast
    also have "\<dots> = parseFloat (replace_comma ''12.50'')"
      using a s by simp
    finally show "od_refund (extractOrderDetailsWithPage d) = Num (25 / 2)"
      using a by (simp add: od_refund_extract[OF ok] parse_12_50)
  }
qed

theorem refund_from_label_parent_witness:
  "fails_at (doc_of_body labelled_body) \<notin> {Some AtAddress, Some AtPayment, Some AtRefund} \<and>
   span_div_td (body (doc_of_body labelled_body)) =
     [(Elem ''div'' [Elem ''span'' [Text ''Refund Total''], Elem ''span'' [Text ''$12.50'']], labelled_body)]
     @ (Elem ''span'' [Text ''Refund Total''],
        Elem ''div'' [Elem ''span'' [Text ''Refund Total''], Elem ''span'' [Text ''$12.50'']])
     # [(Elem ''span'' [Text ''$12.50''],
         Elem ''div'' [Elem ''span'' [Text ''Refund Total''], Elem ''span'' [Text ''$12.50'']])] \<and>
   trim (textContent (Elem ''div'' [Elem ''span'' [Text ''Refund Total''], Elem ''span'' [Text ''$12.50'']]))
     \<noteq> ''Refund Total'' \<and>
   trim (textContent (Elem ''span'' [Text ''Refund Total''])) = ''Refund Total'' \<and>
   textContent (Elem ''div'' [Elem ''span'' [Text ''Refund Total''], Elem ''span'' [Text ''$12.50'']])
     = ''Refund Total'' @ ''$12.50'' @ [] \<and>
   CHR ''$'' \<notin> set ''Refund Total'' \<and>
   od_refund (extractOrderDetailsWithPage (doc_of_body labelled_body)) = Num (25 / 2) \<and>
   map (trim \<circ> textContent \<circ> fst) (span_div_td (body (doc_of_body inline_body)))
     = [''Refund Total: $12.50'', ''Refund Total: $12.50''] \<and>
   od_refund (extractOrderDetailsWithPage (doc_of_body inline_body)) = Num 0 \<and>
   trim (textContent (Elem ''span'' [Text (''Refund Total'' @ [CHR 0xA0])])) = ''Refund Total'' \<and>
   od_refund (extractOrderDetailsWithPage (doc_of_body nbsp_body)) = Num (25 / 2)"
proof -
  let ?row = "Elem ''div'' [Elem ''span'' [Text ''Refund Total''], Elem ''span'' [Text ''$12.50'']]"
  let ?nlab = "Elem ''span'' [Text (''Refund Total'' @ [CHR 0xA0])]"
  let ?nrow = "Elem ''div'' [?nlab, Elem ''span'' [Text ''$12.50'']]"
  have n0: "fails_at (doc_of_body nbsp_body) \<notin> {Some AtAddress, Some AtPayment, Some AtRefund}"
    by (simp add: doc_of_body_def)
  have n1: "span_div_td (body (doc_of_body nbsp_body)) =
     [(?nrow, nbsp_body)] @ (?nlab, ?nrow) # [(Elem ''span'' [Text ''$12.50''], ?nrow)]"
    by code_simp
  have n2: "trim (textContent ?nrow) \<noteq> ''Refund Total''" by code_simp
  have n3: "trim (textContent ?nlab) = ''Refund Total''" by code_simp
  have n4: "textContent ?nrow = (''Refund Total'' @ [CHR 0xA0]) @ ''$12.50'' @ []" by simp
  have n5: "CHR ''$'' \<notin> set (''Refund Total'' @ [CHR 0xA0])" by simp
  have r3: "od_refund (extractOrderDetailsWithPage (doc_of_body nbsp_body)) = Num (25 / 2)"
    using refund_from_label_parent[of "doc_of_body nbsp_body" "[(?nrow, nbsp_body)]"
            ?nlab ?nrow "[(Elem ''span'' [Text ''$12.50''], ?nrow)]"
            "''Refund Total'' @ [CHR 0xA0]" "[]"]
          n0 n1 n2 n3 n4 n5
    by simp
  have h0: "fails_at (doc_of_body labelled_body) \<notin> {Some AtAddress, Some AtPayment, Some AtRefund}"
    by (simp add: doc_of_body_def)
  have h1: "span_div_td (body (doc_of_body labelled_body)) =
     [(?row, labelled_body)] @ (Elem ''span'' [Text ''Refund Total''], ?row)
       # [(Elem ''span'' [Text ''$12.50''], ?row)]"
    by code_simp
  have h2: "trim (textContent ?row) \<noteq> ''Refund Total''" by code_simp
  have h3: "trim (textContent (Elem ''span'' [Text ''Refund Total''])) = ''Refund Total''" by code_simp
  have h4: "textContent ?row = ''Refund Total'' @ ''$12.50'' @ []" by simp
  have h5: "CHR ''$'' \<notin> set ''Refund Total''" by simp
  have r1: "od_refund (extractOrderDetailsWithPage (doc_of_body labelled_body)) = Num (25 / 2)"
    using refund_from_label_parent[of "doc_of_body labelled_body" "[(?row, labelled_body)]"
            "Elem ''span'' [Text ''Refund Total'']" ?row "[(Elem ''span'' [Text ''$12.50''], ?row)]"
            "''Refund Total''" "[]"]
          h0 h1 h2 h3 h4 h5
    by simp
  have g0: "fails_at (doc_of_body inline_body) \<notin> {Some AtAddress, Some AtPayment, Some AtRefund}"
    by (simp add: doc_of_body_def)
  have g1: "map (trim \<circ> textContent \<circ> fst) (span_div_td (body (doc_of_body inline_body)))
     = [''Refund Total: $12.50'', ''Refund Total: $12.50'']"
    by code_simp
  have g2: "\<forall>(e, q) \<in> set (span_div_td (body (doc_of_body inline_body))).
              trim (textContent e) \<noteq> ''Refund Total''"
  proof -
    have "\<forall>s \<in> set (map (trim \<circ> textContent \<circ> fst) (span_div_td (body (doc_of_body inline_body)))).
            s \<noteq> ''Refund Total''"
      unfolding g1 by simp
    then show ?thesis by auto
  qed
  have r2: "od_refund (extractOrderDetailsWithPage (doc_of_body inline_body)) = Num 0"
    using refund_from_label_parent[of "doc_of_body inline_body"] g0 g2 by blast
  from h0 h1 h2 h3 h4 h5 r1 g1 r2 n3 r3 show ?thesis by blast
qed

end
